theory Spec2Isabelle
  imports Main
begin

section \<open>Smith-Waterman local alignment: the sequential and the wavefront program\<close>

text \<open>
  The development embeds \<^verbatim>\<open>cpuSmithWaterman.cpp\<close> (function \<^verbatim>\<open>smithWaterman\<close>,
  \<^verbatim>\<open>gcgChecksum\<close>, \<^verbatim>\<open>determineSequenceType\<close>, \<^verbatim>\<open>printMSFAlignment\<close>) and the
  fill phase of \<^verbatim>\<open>smithWaterman.cu\<close> (\<^verbatim>\<open>sw_kernel\<close> and the launch loop of \<^verbatim>\<open>main\<close>).

  Conventions.
  \<^item> A \<^verbatim>\<open>std::string\<close> is a \<open>string\<close> (a list of 8-bit \<open>char\<close>s).
  \<^item> \<^verbatim>\<open>std::vector<int> score\<close> is an \<open>int list\<close>, \<^verbatim>\<open>std::vector<unsigned char> dir\<close>
    a \<open>nat list\<close>; both have \<open>(len1+1) * (len2+1)\<close> entries and cell \<open>(i, j)\<close> lives at
    index \<open>i * (len2+1) + j\<close>, as in the source. The two vectors travel together as the
    pair \<open>(score, dir)\<close>.
  \<^item> Loop counters and indices are \<open>nat\<close>. A score is a 32-bit \<^verbatim>\<open>int\<close>: it is an
    \<open>int\<close> of HOL, and every addition of the source is followed by \<open>int32\<close>, the
    wrap-around into \<open>-2^31 \<dots> 2^31 - 1\<close> that the compiled programs perform.
  \<^item> Direction codes are the source's: 0 = stop, 1 = diagonal, 2 = up, 3 = left.
  \<^item> The source indexes its vectors without a bounds check. Every index the loops form
    for cells \<open>i \<le> len1\<close>, \<open>j \<le> len2\<close> is below \<open>(len1+1) * (len2+1)\<close> (lemma
    \<open>cell_index_less\<close>), so the reads \<open>xs ! k\<close> of the embedding are reads inside the vector.
  \<^item> Both \<^verbatim>\<open>main\<close> functions stop with an error when a sequence is empty, before any
    of the functions below runs. The theorems do not need that guard: they hold for empty
    sequences too.
\<close>

type_synonym matrices = "int list \<times> nat list"

subsection \<open>32-bit integers\<close>

text \<open>
  The value a 32-bit two's-complement \<^verbatim>\<open>int\<close> holds after an operation whose
  mathematical result is \<open>x\<close>.
\<close>

definition int32 :: "int \<Rightarrow> int" where
  "int32 x = (x + 2147483648) mod 4294967296 - 2147483648"

definition in_int32 :: "int \<Rightarrow> bool" where
  "in_int32 x = (- 2147483648 \<le> x \<and> x \<le> 2147483647)"

subsection \<open>Sequential fill (cpuSmithWaterman.cpp, lines 86--118)\<close>

text \<open>The body of the inner loop, lines 92--116: it updates cell \<open>(i, j)\<close>.\<close>

definition fill_cell ::
  "string \<Rightarrow> string \<Rightarrow> int \<Rightarrow> int \<Rightarrow> int \<Rightarrow> nat \<Rightarrow> nat \<Rightarrow> matrices \<Rightarrow> matrices" where
  "fill_cell seq1 seq2 matchScore mismatchScore gapScore i j st =
     (let len2 = length seq2;
          score = fst st;
          dir = snd st;
          up = int32 (score ! ((i - 1) * (len2 + 1) + j) + gapScore);
          left = int32 (score ! (i * (len2 + 1) + (j - 1)) + gapScore);
          diagScore = int32 (score ! ((i - 1) * (len2 + 1) + (j - 1)) +
                        (if seq1 ! (i - 1) = seq2 ! (j - 1) then matchScore else mismatchScore));
          s0 = (0 :: int, 0 :: nat);
          s1 = (if diagScore > fst s0 then (diagScore, 1) else s0);
          s2 = (if up > fst s1 then (up, 2) else s1);
          s3 = (if left > fst s2 then (left, 3) else s2)
      in (score[i * (len2 + 1) + j := fst s3], dir[i * (len2 + 1) + j := snd s3]))"

text \<open>
  The pairs \<open>s0 \<dots> s3\<close> are the values of \<^verbatim>\<open>(localMaxScore, direction)\<close> before and
  after each of the three \<^verbatim>\<open>if\<close> statements.
\<close>

definition sw_init :: "string \<Rightarrow> string \<Rightarrow> matrices" where
  "sw_init seq1 seq2 =
     (replicate ((length seq1 + 1) * (length seq2 + 1)) 0,
      replicate ((length seq1 + 1) * (length seq2 + 1)) 0)"

definition sw_fill :: "string \<Rightarrow> string \<Rightarrow> int \<Rightarrow> int \<Rightarrow> int \<Rightarrow> matrices" where
  "sw_fill seq1 seq2 matchScore mismatchScore gapScore =
     fold (\<lambda>i. fold (fill_cell seq1 seq2 matchScore mismatchScore gapScore i)
                  [1 ..< length seq2 + 1])
          [1 ..< length seq1 + 1]
          (sw_init seq1 seq2)"

subsection \<open>Wavefront fill (smithWaterman.cu, lines 11--40 and 174--188)\<close>

text \<open>
  One thread of \<^verbatim>\<open>sw_kernel\<close>; \<open>idx\<close> is \<^verbatim>\<open>blockIdx.x * blockDim.x + threadIdx.x\<close>.
  The subtraction \<open>diag - i\<close> is exact: the launch loop only passes \<open>end_i \<le> diag - 1\<close>.
\<close>

definition sw_kernel ::
  "string \<Rightarrow> string \<Rightarrow> nat \<Rightarrow> nat \<Rightarrow> nat \<Rightarrow> nat \<Rightarrow> nat \<Rightarrow> int \<Rightarrow> int \<Rightarrow> int \<Rightarrow>
   nat \<Rightarrow> matrices \<Rightarrow> matrices" where
  "sw_kernel seq1 seq2 len1 len2 diag start_i end_i matchScore mismatchScore gapScore idx st =
     (let i = start_i + idx in
      if i > end_i then st
      else
        let j = diag - i;
            score = fst st;
            dir = snd st;
            up = int32 (score ! ((i - 1) * (len2 + 1) + j) + gapScore);
            left = int32 (score ! (i * (len2 + 1) + (j - 1)) + gapScore);
            diagScore = int32 (score ! ((i - 1) * (len2 + 1) + (j - 1)) +
                        (if seq1 ! (i - 1) = seq2 ! (j - 1) then matchScore else mismatchScore));
            s0 = (0 :: int, 0 :: nat);
            s1 = (if diagScore > fst s0 then (diagScore, 1) else s0);
            s2 = (if up > fst s1 then (up, 2) else s1);
            s3 = (if left > fst s2 then (left, 3) else s2)
        in (score[i * (len2 + 1) + j := fst s3], dir[i * (len2 + 1) + j := snd s3]))"

text \<open>
  A kernel launch \<^verbatim>\<open>sw_kernel<<<blocks, threadsPerBlock>>>\<close> followed by
  \<^verbatim>\<open>cudaDeviceSynchronize()\<close> runs \<open>blocks * threadsPerBlock\<close> threads to completion.
  The threads of one launch are run one after the other; the order in which they run is
  not fixed by the program, so it is a parameter: \<open>order diag n\<close> lists the thread
  indices of the launch for anti-diagonal \<open>diag\<close>, which has \<open>n\<close> threads.
\<close>

definition sw_launch ::
  "(nat \<Rightarrow> nat \<Rightarrow> nat list) \<Rightarrow> string \<Rightarrow> string \<Rightarrow> int \<Rightarrow> int \<Rightarrow> int \<Rightarrow>
   nat \<Rightarrow> matrices \<Rightarrow> matrices" where
  "sw_launch order seq1 seq2 matchScore mismatchScore gapScore diag st =
     (let len1 = length seq1;
          len2 = length seq2;
          threadsPerBlock = 256;
          start_i = (if diag > len2 + 1 then diag - (len2 + 1) + 1 else 1);
          start_i = (if start_i < 1 then 1 else start_i);
          end_i = (if diag - 1 < len1 then diag - 1 else len1);
          end_i = (if end_i > len1 then len1 else end_i)
      in if start_i > len1 \<or> start_i > end_i then st
         else
           let totalCells = end_i - start_i + 1;
               blocks = (totalCells + threadsPerBlock - 1) div threadsPerBlock
           in fold (sw_kernel seq1 seq2 len1 len2 diag start_i end_i
                      matchScore mismatchScore gapScore)
                   (order diag (blocks * threadsPerBlock)) st)"

definition gpu_fill ::
  "(nat \<Rightarrow> nat \<Rightarrow> nat list) \<Rightarrow> string \<Rightarrow> string \<Rightarrow> int \<Rightarrow> int \<Rightarrow> int \<Rightarrow> matrices" where
  "gpu_fill order seq1 seq2 matchScore mismatchScore gapScore =
     fold (sw_launch order seq1 seq2 matchScore mismatchScore gapScore)
          [2 ..< length seq1 + length seq2 + 1]
          (sw_init seq1 seq2)"

text \<open>A schedule is admissible when every launch runs each of its threads.\<close>

definition runs_all_threads :: "(nat \<Rightarrow> nat \<Rightarrow> nat list) \<Rightarrow> bool" where
  "runs_all_threads order = (\<forall>d n. set (order d n) = {0 ..< n})"

definition in_order :: "nat \<Rightarrow> nat \<Rightarrow> nat list" where
  "in_order d n = [0 ..< n]"

definition backwards :: "nat \<Rightarrow> nat \<Rightarrow> nat list" where
  "backwards d n = rev [0 ..< n]"

subsection \<open>Best cell and traceback (cpuSmithWaterman.cpp, lines 120--177)\<close>

text \<open>
  \<^verbatim>\<open>smithWaterman.cu\<close> repeats these statements verbatim in \<^verbatim>\<open>main\<close> (lines 196--252),
  so one embedding serves both programs.
\<close>

definition find_max :: "nat \<Rightarrow> nat \<Rightarrow> int list \<Rightarrow> int \<times> nat \<times> nat" where
  "find_max len1 len2 score =
     fold (\<lambda>i. fold (\<lambda>j (maxScore, max_i, max_j).
                   let val = score ! (i * (len2 + 1) + j)
                   in if val > maxScore then (val, i, j) else (maxScore, max_i, max_j))
                 [1 ..< len2 + 1])
          [1 ..< len1 + 1]
          (0, 0, 0)"

text \<open>
  One pass through the \<^verbatim>\<open>if\<close>-chain of the traceback loop (lines 140--160):
  \<open>None\<close> is a \<^verbatim>\<open>break\<close>, otherwise the new \<^verbatim>\<open>(align1, align2, ti, tj)\<close>.
\<close>

definition tb_step ::
  "string \<Rightarrow> string \<Rightarrow> nat list \<Rightarrow> nat \<Rightarrow> nat \<Rightarrow> string \<Rightarrow> string \<Rightarrow>
   (string \<times> string \<times> nat \<times> nat) option" where
  "tb_step seq1 seq2 dir ti tj align1 align2 =
     (let d = dir ! (ti * (length seq2 + 1) + tj) in
      if d = 0 then None
      else if d = 1 then Some (align1 @ [seq1 ! (ti - 1)], align2 @ [seq2 ! (tj - 1)], ti - 1, tj - 1)
      else if d = 2 then Some (align1 @ [seq1 ! (ti - 1)], align2 @ [CHR ''-''], ti - 1, tj)
      else if d = 3 then Some (align1 @ [CHR ''-''], align2 @ [seq2 ! (tj - 1)], ti, tj - 1)
      else None)"

text \<open>
  The traceback loop. The last argument is a ghost variable: the list of the cells
  \<open>(ti, tj)\<close> the walk has been at, the current one last.
\<close>

function tb_loop ::
  "string \<Rightarrow> string \<Rightarrow> int list \<Rightarrow> nat list \<Rightarrow> nat \<Rightarrow> nat \<Rightarrow> string \<Rightarrow> string \<Rightarrow>
   (nat \<times> nat) list \<Rightarrow> string \<times> string \<times> (nat \<times> nat) list" where
  "tb_loop seq1 seq2 score dir ti tj align1 align2 path =
     (if ti > 0 \<and> tj > 0 then
        (case tb_step seq1 seq2 dir ti tj align1 align2 of
           None \<Rightarrow> (align1, align2, path)
         | Some (a1, a2, ti', tj') \<Rightarrow>
             if score ! (ti' * (length seq2 + 1) + tj') = 0
             then (a1, a2, path @ [(ti', tj')])
             else tb_loop seq1 seq2 score dir ti' tj' a1 a2 (path @ [(ti', tj')]))
      else (align1, align2, path))"
  by pat_completeness auto
termination
  by (relation "measure (\<lambda>(seq1, seq2, score, dir, ti, tj, align1, align2, path). ti + tj)")
     (auto simp: tb_step_def Let_def split: if_splits)

declare tb_loop.simps [simp del]

definition gap_to_dot :: "string \<Rightarrow> string" where
  "gap_to_dot s = map (\<lambda>c. if c = CHR ''-'' then CHR ''.'' else c) s"

text \<open>Lines 120--177 on given matrices: \<open>(align1, align2, maxScore)\<close> and the ghost path.\<close>

definition sw_walk ::
  "string \<Rightarrow> string \<Rightarrow> matrices \<Rightarrow> (string \<times> string \<times> int) \<times> (nat \<times> nat) list" where
  "sw_walk seq1 seq2 st =
     (let score = fst st;
          dir = snd st;
          (maxScore, max_i, max_j) = find_max (length seq1) (length seq2) score;
          (a1, a2, path) = tb_loop seq1 seq2 score dir max_i max_j [] [] [(max_i, max_j)]
      in ((gap_to_dot (rev a1), gap_to_dot (rev a2), maxScore), path))"

definition smithWaterman :: "string \<Rightarrow> string \<Rightarrow> int \<Rightarrow> int \<Rightarrow> int \<Rightarrow> string \<times> string \<times> int" where
  "smithWaterman seq1 seq2 matchScore mismatchScore gapScore =
     fst (sw_walk seq1 seq2 (sw_fill seq1 seq2 matchScore mismatchScore gapScore))"

definition gpu_align ::
  "(nat \<Rightarrow> nat \<Rightarrow> nat list) \<Rightarrow> string \<Rightarrow> string \<Rightarrow> int \<Rightarrow> int \<Rightarrow> int \<Rightarrow> string \<times> string \<times> int" where
  "gpu_align order seq1 seq2 matchScore mismatchScore gapScore =
     fst (sw_walk seq1 seq2 (gpu_fill order seq1 seq2 matchScore mismatchScore gapScore))"

subsection \<open>Checksum and sequence type (cpuSmithWaterman.cpp, lines 181--205)\<close>

text \<open>
  \<^verbatim>\<open>std::toupper\<close> on the code of an \<^verbatim>\<open>unsigned char\<close>, in the default "C" locale:
  the 26 lower-case ASCII letters move down by 32, every other code stays.
\<close>

definition c_toupper :: "nat \<Rightarrow> nat" where
  "c_toupper c = (if 97 \<le> c \<and> c \<le> 122 then c - 32 else c)"

text \<open>
  \<^verbatim>\<open>gcgChecksum\<close>: the accumulator \<^verbatim>\<open>check\<close> is a \<^verbatim>\<open>long\<close>, here an integer; it is never
  negative, so the final \<^verbatim>\<open>%\<close> of C++ is \<open>mod\<close>.
\<close>

definition gcgChecksum :: "string \<Rightarrow> int" where
  "gcgChecksum s =
     (let check = fold (\<lambda>i check.
                    let c = int (c_toupper (of_char (s ! i)))
                    in check + int ((i mod 57) + 1) * c)
                  [0 ..< length s] 0
      in check mod 10000)"

text \<open>The loop of \<^verbatim>\<open>determineSequenceType\<close>: the final value of \<^verbatim>\<open>maybeDNA\<close>.\<close>

fun dna_scan :: "string \<Rightarrow> bool" where
  "dna_scan [] = True"
| "dna_scan (c # cs) =
     (if c = CHR ''.'' then dna_scan cs
      else
        let u = (char_of (c_toupper (of_char c)) :: char)
        in if u \<noteq> CHR ''A'' \<and> u \<noteq> CHR ''C'' \<and> u \<noteq> CHR ''G'' \<and> u \<noteq> CHR ''T'' \<and>
              u \<noteq> CHR ''U'' \<and> u \<noteq> CHR ''N''
           then False
           else dna_scan cs)"

definition determineSequenceType :: "string \<Rightarrow> string \<Rightarrow> char" where
  "determineSequenceType align1 align2 =
     (let allAligned = align1 @ align2;
          maybeDNA = dna_scan allAligned
      in if maybeDNA then CHR ''N'' else CHR ''P'')"

subsection \<open>The report (cpuSmithWaterman.cpp, lines 208--258)\<close>

text \<open>
  What \<^verbatim>\<open>printf\<close> writes for the conversions the program uses, after the C standard:
  \<^verbatim>\<open>%d\<close>, \<^verbatim>\<open>%4d\<close> (right-justified in at least 4 columns) and \<^verbatim>\<open>%-12s\<close> (the \<^verbatim>\<open>-\<close> flag
  left-justifies: the string first, then blanks up to 12 columns; a longer string is
  written whole).
\<close>

fun dec_digits :: "nat \<Rightarrow> string" where
  "dec_digits n =
     (if n < 10 then [''0123456789'' ! n]
      else dec_digits (n div 10) @ [''0123456789'' ! (n mod 10)])"

declare dec_digits.simps [simp del]

definition printf_d :: "int \<Rightarrow> string" where
  "printf_d x = (if x < 0 then CHR ''-'' # dec_digits (nat (- x)) else dec_digits (nat x))"

definition printf_4d :: "int \<Rightarrow> string" where
  "printf_4d x = replicate (4 - length (printf_d x)) CHR '' '' @ printf_d x"

text \<open>
  The program passes \<^verbatim>\<open>name.c_str()\<close> to \<^verbatim>\<open>%s\<close> and \<^verbatim>\<open>%-12s\<close>: \<^verbatim>\<open>printf\<close> reads the
  characters up to the first NUL byte, so a name that holds a NUL byte is cut there.
\<close>

definition printf_s :: "string \<Rightarrow> string" where
  "printf_s s = takeWhile (\<lambda>c. c \<noteq> CHR 0x00) s"

definition printf_minus12s :: "string \<Rightarrow> string" where
  "printf_minus12s s = printf_s s @ replicate (12 - length (printf_s s)) CHR '' ''"

text \<open>
  The report is the text written to standard output. \<open>msf_header\<close> is lines 221--228,
  \<open>residues\<close> the loop over \<open>k\<close> (lines 237--244 and 248--255), \<open>msf_blocks\<close> the loop
  over \<open>start\<close> (lines 232--257).
\<close>

definition msf_header ::
  "string \<Rightarrow> string \<Rightarrow> nat \<Rightarrow> char \<Rightarrow> int \<Rightarrow> int \<Rightarrow> int \<Rightarrow> int \<Rightarrow> string" where
  "msf_header name1 name2 alignLen typeChar globalCheck check1 check2 maxScore =
     ''Alignment score: '' @ printf_d maxScore @ ''\<newline>\<newline>'' @
     ''PileUp\<newline>\<newline>'' @
     ''   MSF:   '' @ printf_d (int alignLen) @ ''  Type: '' @ [typeChar] @
       ''    Check:  '' @ printf_4d globalCheck @ ''   ..\<newline>\<newline>'' @
     '' Name: '' @ printf_s name1 @ '' oo  Len:   '' @ printf_d (int alignLen) @
       ''  Check:  '' @ printf_4d check1 @ ''  Weight:  10.0\<newline>'' @
     '' Name: '' @ printf_s name2 @ '' oo  Len:   '' @ printf_d (int alignLen) @
       ''  Check:  '' @ printf_4d check2 @ ''  Weight:  10.0\<newline>\<newline>'' @
     ''//\<newline>\<newline>''"

definition residues :: "string \<Rightarrow> nat \<Rightarrow> nat \<Rightarrow> string" where
  "residues align start end_k =
     fst (fold (\<lambda>k (out, count).
                  let out = out @ [align ! k];
                      count = count + 1
                  in if count mod 10 = 0 \<and> k < end_k - 1 then (out @ '' '', count)
                     else (out, count))
               [start ..< end_k] ([], 0 :: nat))"

function msf_blocks :: "string \<Rightarrow> string \<Rightarrow> string \<Rightarrow> string \<Rightarrow> nat \<Rightarrow> nat \<Rightarrow> string" where
  "msf_blocks name1 name2 align1 align2 alignLen start =
     (if start < alignLen then
        (let colsPerLine = 50;
             end_k = (if start + colsPerLine < alignLen then start + colsPerLine else alignLen)
         in printf_minus12s name1 @ residues align1 start end_k @ ''\<newline>'' @
            printf_minus12s name2 @ residues align2 start end_k @ ''\<newline>\<newline>'' @
            msf_blocks name1 name2 align1 align2 alignLen (start + colsPerLine))
      else [])"
  by pat_completeness auto
termination
  by (relation "measure (\<lambda>(name1, name2, align1, align2, alignLen, start). alignLen - start)")
     auto

declare msf_blocks.simps [simp del]

definition printMSFAlignment :: "string \<Rightarrow> string \<Rightarrow> string \<Rightarrow> string \<Rightarrow> int \<Rightarrow> string" where
  "printMSFAlignment name1 name2 align1 align2 maxScore =
     (let alignLen = length align1;
          check1 = gcgChecksum align1;
          check2 = gcgChecksum align2;
          globalCheck = (check1 + check2) mod 10000;
          typeChar = determineSequenceType align1 align2
      in msf_header name1 name2 alignLen typeChar globalCheck check1 check2 maxScore @
         msf_blocks name1 name2 align1 align2 alignLen 0)"

subsection \<open>Reference definitions\<close>

text \<open>
  The checksum as the specification words it: the sum over the positions \<open>i\<close> of the
  string of \<open>((i mod 57) + 1)\<close> times the code of the upper-cased symbol, modulo 10000.
\<close>

definition checksum_spec :: "string \<Rightarrow> int" where
  "checksum_spec s =
     (\<Sum>i\<leftarrow>[0 ..< length s]. (int (i mod 57) + 1) * int (c_toupper (of_char (s ! i))))
       mod 10000"

text \<open>
  The direction as the specification words it: none (0) when the best score is 0,
  otherwise the first of DIAG (1), UP (2), LEFT (3) whose candidate equals the best score.
\<close>

definition direction_spec :: "int \<Rightarrow> int \<Rightarrow> int \<Rightarrow> int \<Rightarrow> nat" where
  "direction_spec bestScore diag up left =
     (if bestScore = 0 then 0
      else case find (\<lambda>(d, v). v = bestScore) [(1, diag), (2, up), (3, left)] of
             Some (d, v) \<Rightarrow> d
           | None \<Rightarrow> 0)"

text \<open>
  The Smith-Waterman recurrence as a function of the cell, independent of any fill
  order: \<open>sw_H\<close> is the score and \<open>sw_D\<close> the direction of cell \<open>(i, j)\<close>.
\<close>

fun sw_H :: "string \<Rightarrow> string \<Rightarrow> int \<Rightarrow> int \<Rightarrow> int \<Rightarrow> nat \<Rightarrow> nat \<Rightarrow> int" where
  "sw_H seq1 seq2 m mm g 0 j = 0"
| "sw_H seq1 seq2 m mm g (Suc i) 0 = 0"
| "sw_H seq1 seq2 m mm g (Suc i) (Suc j) =
     max 0 (max (int32 (sw_H seq1 seq2 m mm g i j + (if seq1 ! i = seq2 ! j then m else mm)))
             (max (int32 (sw_H seq1 seq2 m mm g i (Suc j) + g))
                  (int32 (sw_H seq1 seq2 m mm g (Suc i) j + g))))"

fun sw_D :: "string \<Rightarrow> string \<Rightarrow> int \<Rightarrow> int \<Rightarrow> int \<Rightarrow> nat \<Rightarrow> nat \<Rightarrow> nat" where
  "sw_D seq1 seq2 m mm g 0 j = 0"
| "sw_D seq1 seq2 m mm g (Suc i) 0 = 0"
| "sw_D seq1 seq2 m mm g (Suc i) (Suc j) =
     direction_spec (sw_H seq1 seq2 m mm g (Suc i) (Suc j))
       (int32 (sw_H seq1 seq2 m mm g i j + (if seq1 ! i = seq2 ! j then m else mm)))
       (int32 (sw_H seq1 seq2 m mm g i (Suc j) + g))
       (int32 (sw_H seq1 seq2 m mm g (Suc i) j + g))"

text \<open>
  \<open>filled P st\<close>: the matrices have their full size and every cell of the grid that
  satisfies \<open>P\<close> holds the value of the recurrence.
\<close>

definition filled ::
  "string \<Rightarrow> string \<Rightarrow> int \<Rightarrow> int \<Rightarrow> int \<Rightarrow> (nat \<Rightarrow> nat \<Rightarrow> bool) \<Rightarrow> matrices \<Rightarrow> bool" where
  "filled seq1 seq2 m mm g P st =
     (length (fst st) = (length seq1 + 1) * (length seq2 + 1) \<and>
      length (snd st) = (length seq1 + 1) * (length seq2 + 1) \<and>
      (\<forall>i j. i \<le> length seq1 \<and> j \<le> length seq2 \<and> P i j \<longrightarrow>
         fst st ! (i * (length seq2 + 1) + j) = sw_H seq1 seq2 m mm g i j \<and>
         snd st ! (i * (length seq2 + 1) + j) = sw_D seq1 seq2 m mm g i j))"

text \<open>
  The invariant of the scan for the best cell, for a grid given by a function \<open>f\<close>:
  \<open>acc = (maxScore, max_i, max_j)\<close> after the rows before \<open>i\<close> and the columns
  \<open>1 \<dots> J\<close> of row \<open>i\<close> have been looked at.
\<close>

definition best_upto :: "(nat \<Rightarrow> nat \<Rightarrow> int) \<Rightarrow> nat \<Rightarrow> nat \<Rightarrow> nat \<Rightarrow> int \<times> nat \<times> nat \<Rightarrow> bool" where
  "best_upto f len2 i J acc =
     (case acc of (ms, mi, mj) \<Rightarrow>
        (\<forall>a b. 1 \<le> a \<and> 1 \<le> b \<and> b \<le> len2 \<and> (a < i \<or> (a = i \<and> b \<le> J)) \<longrightarrow> f a b \<le> ms) \<and>
        ((ms = 0 \<and> mi = 0 \<and> mj = 0) \<or>
         (0 < ms \<and> 1 \<le> mi \<and> 1 \<le> mj \<and> mj \<le> len2 \<and> (mi < i \<or> (mi = i \<and> mj \<le> J)) \<and>
          f mi mj = ms \<and>
          (\<forall>a b. 1 \<le> a \<and> 1 \<le> b \<and> b \<le> len2 \<and> (a < mi \<or> (a = mi \<and> b < mj)) \<longrightarrow> f a b < ms))))"

section \<open>The fill phase computes the recurrence\<close>

subsection \<open>One cell\<close>

lemma cell_index_less:
  fixes i j n1 n2 :: nat
  assumes "i \<le> n1" "j \<le> n2"
  shows "i * (n2 + 1) + j < (n1 + 1) * (n2 + 1)"
proof -
  have "i * (n2 + 1) + j < i * (n2 + 1) + (n2 + 1)" using assms by simp
  also have "\<dots> = (i + 1) * (n2 + 1)" by simp
  also have "\<dots> \<le> (n1 + 1) * (n2 + 1)" using assms by (intro mult_le_mono1) simp
  finally show ?thesis .
qed

lemma cell_index_inj:
  fixes i j i' j' n2 :: nat
  assumes "j \<le> n2" "j' \<le> n2" "i * (n2 + 1) + j = i' * (n2 + 1) + j'"
  shows "i = i' \<and> j = j'"
proof -
  define w where "w = n2 + 1"
  have lt: "j < w" "j' < w" using assms(1,2) by (simp_all add: w_def)
  have eq: "i * w + j = i' * w + j'" using assms(3) by (simp only: w_def)
  have "(i * w + j) div w = i" "(i * w + j) mod w = j"
    using lt(1) by simp_all
  moreover have "(i' * w + j') div w = i'" "(i' * w + j') mod w = j'"
    using lt(2) by simp_all
  ultimately show ?thesis using eq by metis
qed

lemma pick_eq:
  fixes d u l :: int
  shows "(let s0 = (0 :: int, 0 :: nat);
          s1 = (if d > fst s0 then (d, 1) else s0);
          s2 = (if u > fst s1 then (u, 2) else s1);
          s3 = (if l > fst s2 then (l, 3) else s2) in f (fst s3) (snd s3)) = f (max 0 (max d (max u l))) (direction_spec (max 0 (max d (max u l))) d u l)"
  unfolding Let_def direction_spec_def max_def by (simp split: if_splits)

lemma fill_cell_eq:
  "fill_cell seq1 seq2 m mm g i j st =
     (let w = length seq2 + 1;
          d = int32 (fst st ! ((i - 1) * w + (j - 1)) + (if seq1 ! (i - 1) = seq2 ! (j - 1) then m else mm));
          u = int32 (fst st ! ((i - 1) * w + j) + g);
          l = int32 (fst st ! (i * w + (j - 1)) + g);
          b = max 0 (max d (max u l))
      in ((fst st)[i * w + j := b], (snd st)[i * w + j := direction_spec b d u l]))"
proof -
  define w where "w = length seq2 + 1"
  define d where "d = int32 (fst st ! ((i - 1) * w + (j - 1)) + (if seq1 ! (i - 1) = seq2 ! (j - 1) then m else mm))"
  define u where "u = int32 (fst st ! ((i - 1) * w + j) + g)"
  define l where "l = int32 (fst st ! (i * w + (j - 1)) + g)"
  have "fill_cell seq1 seq2 m mm g i j st =
     (let s0 = (0 :: int, 0 :: nat);
          s1 = (if d > fst s0 then (d, 1) else s0);
          s2 = (if u > fst s1 then (u, 2) else s1);
          s3 = (if l > fst s2 then (l, 3) else s2)
      in (\<lambda>a b. ((fst st)[i * w + j := a], (snd st)[i * w + j := b])) (fst s3) (snd s3))"
    by (simp only: fill_cell_def Let_def w_def d_def u_def l_def)
  also have "\<dots> = ((fst st)[i * w + j := max 0 (max d (max u l))],
      (snd st)[i * w + j := direction_spec (max 0 (max d (max u l))) d u l])"
    by (rule pick_eq)
  finally show ?thesis
    by (simp only: Let_def w_def d_def u_def l_def)
qed

lemma sw_kernel_eq:
  "sw_kernel seq1 seq2 len1 (length seq2) diag start_i end_i m mm g idx st =
     (if start_i + idx > end_i then st
      else fill_cell seq1 seq2 m mm g (start_i + idx) (diag - (start_i + idx)) st)"
  by (simp only: sw_kernel_def fill_cell_def Let_def)

lemma fill_cell_Suc:
  "fill_cell seq1 seq2 m mm g (Suc i) (Suc j) st =
     ((fst st)[Suc i * (length seq2 + 1) + Suc j :=
        max 0 (max (int32 (fst st ! (i * (length seq2 + 1) + j) + (if seq1 ! i = seq2 ! j then m else mm)))
               (max (int32 (fst st ! (i * (length seq2 + 1) + Suc j) + g))
                    (int32 (fst st ! (Suc i * (length seq2 + 1) + j) + g))))],
      (snd st)[Suc i * (length seq2 + 1) + Suc j :=
        direction_spec
          (max 0 (max (int32 (fst st ! (i * (length seq2 + 1) + j) + (if seq1 ! i = seq2 ! j then m else mm)))
               (max (int32 (fst st ! (i * (length seq2 + 1) + Suc j) + g))
                    (int32 (fst st ! (Suc i * (length seq2 + 1) + j) + g)))))
          (int32 (fst st ! (i * (length seq2 + 1) + j) + (if seq1 ! i = seq2 ! j then m else mm)))
          (int32 (fst st ! (i * (length seq2 + 1) + Suc j) + g))
          (int32 (fst st ! (Suc i * (length seq2 + 1) + j) + g))])"
  by (simp only: fill_cell_eq Let_def diff_Suc_1)

lemma filled_mono:
  assumes "filled seq1 seq2 m mm g P st"
    and "\<And>a b. a \<le> length seq1 \<Longrightarrow> b \<le> length seq2 \<Longrightarrow> Q a b \<Longrightarrow> P a b"
  shows "filled seq1 seq2 m mm g Q st"
  using assms unfolding filled_def by blast

lemma filled_step:
  assumes F: "filled seq1 seq2 m mm g P st"
    and i: "1 \<le> i" "i \<le> length seq1" and j: "1 \<le> j" "j \<le> length seq2"
    and P: "P (i - 1) (j - 1)" "P (i - 1) j" "P i (j - 1)"
  shows "filled seq1 seq2 m mm g (\<lambda>a b. P a b \<or> (a = i \<and> b = j))
           (fill_cell seq1 seq2 m mm g i j st)"
proof -
  obtain i' j' where ij: "i = Suc i'" "j = Suc j'"
    using i j by (cases i; cases j) auto
  define w where "w = length seq2 + 1"
  define ix where "ix = Suc i' * w + Suc j'"
  have len: "length (fst st) = (length seq1 + 1) * w" "length (snd st) = (length seq1 + 1) * w"
    using F by (simp_all add: filled_def w_def)
  have val: "fst st ! (a * w + b) = sw_H seq1 seq2 m mm g a b"
            "snd st ! (a * w + b) = sw_D seq1 seq2 m mm g a b"
    if "a \<le> length seq1" "b \<le> length seq2" "P a b" for a b
    using F that by (simp_all add: filled_def w_def)
  have pre: "fst st ! (i' * w + j') = sw_H seq1 seq2 m mm g i' j'"
            "fst st ! (i' * w + Suc j') = sw_H seq1 seq2 m mm g i' (Suc j')"
            "fst st ! (Suc i' * w + j') = sw_H seq1 seq2 m mm g (Suc i') j'"
    using val(1)[of i' j'] val(1)[of i' "Suc j'"] val(1)[of "Suc i'" j'] i j P
    by (simp_all add: ij)
  have "i * w + j < (length seq1 + 1) * w"
    unfolding w_def by (rule cell_index_less[OF i(2) j(2)])
  then have lt: "ix < length (fst st)" "ix < length (snd st)"
    by (simp_all only: ix_def len ij)
  have H: "sw_H seq1 seq2 m mm g (Suc i') (Suc j') =
      max 0 (max (int32 (sw_H seq1 seq2 m mm g i' j' + (if seq1 ! i' = seq2 ! j' then m else mm)))
             (max (int32 (sw_H seq1 seq2 m mm g i' (Suc j') + g)) (int32 (sw_H seq1 seq2 m mm g (Suc i') j' + g))))"
    by (rule sw_H.simps(3))
  have D: "sw_D seq1 seq2 m mm g (Suc i') (Suc j') =
      direction_spec (sw_H seq1 seq2 m mm g (Suc i') (Suc j'))
       (int32 (sw_H seq1 seq2 m mm g i' j' + (if seq1 ! i' = seq2 ! j' then m else mm)))
       (int32 (sw_H seq1 seq2 m mm g i' (Suc j') + g))
       (int32 (sw_H seq1 seq2 m mm g (Suc i') j' + g))"
    by (rule sw_D.simps(3))
  have new: "fill_cell seq1 seq2 m mm g i j st =
      ((fst st)[ix := sw_H seq1 seq2 m mm g (Suc i') (Suc j')],
       (snd st)[ix := sw_D seq1 seq2 m mm g (Suc i') (Suc j')])"
    unfolding D unfolding H
    unfolding ij fill_cell_Suc w_def[symmetric] ix_def[symmetric] pre ..
  have other: "ix \<noteq> a * w + b" if "b \<le> length seq2" "\<not> (a = i \<and> b = j)" for a b
  proof
    assume "ix = a * w + b"
    then have "i * (length seq2 + 1) + j = a * (length seq2 + 1) + b"
      by (simp only: ix_def w_def ij)
    from cell_index_inj[OF j(2) that(1) this] that(2) show False by blast
  qed
  show ?thesis
    unfolding filled_def w_def[symmetric] new fst_conv snd_conv
  proof (intro conjI allI impI)
    show "length ((fst st)[ix := sw_H seq1 seq2 m mm g (Suc i') (Suc j')]) = (length seq1 + 1) * w"
      by (simp add: len)
    show "length ((snd st)[ix := sw_D seq1 seq2 m mm g (Suc i') (Suc j')]) = (length seq1 + 1) * w"
      by (simp add: len)
  next
    fix a b
    assume ab: "a \<le> length seq1 \<and> b \<le> length seq2 \<and> (P a b \<or> a = i \<and> b = j)"
    show "(fst st)[ix := sw_H seq1 seq2 m mm g (Suc i') (Suc j')] ! (a * w + b) = sw_H seq1 seq2 m mm g a b"
    proof (cases "a = i \<and> b = j")
      case True
      then have "a * w + b = ix" by (simp add: ix_def ij)
      then show ?thesis using lt True by (simp add: ij)
    next
      case False
      with ab have "P a b" and ne: "ix \<noteq> a * w + b" using other[of b a] by blast+
      with ab have "fst st ! (a * w + b) = sw_H seq1 seq2 m mm g a b" using val(1)[of a b] by blast
      then show ?thesis using ne by simp
    qed
    show "(snd st)[ix := sw_D seq1 seq2 m mm g (Suc i') (Suc j')] ! (a * w + b) = sw_D seq1 seq2 m mm g a b"
    proof (cases "a = i \<and> b = j")
      case True
      then have "a * w + b = ix" by (simp add: ix_def ij)
      then show ?thesis using lt True by (simp add: ij)
    next
      case False
      with ab have "P a b" and ne: "ix \<noteq> a * w + b" using other[of b a] by blast+
      with ab have "snd st ! (a * w + b) = sw_D seq1 seq2 m mm g a b" using val(2)[of a b] by blast
      then show ?thesis using ne by simp
    qed
  qed
qed

subsection \<open>The sequential loops\<close>

lemma sw_H_col0 [simp]: "sw_H seq1 seq2 m mm g i 0 = 0"
  by (cases i) simp_all

lemma sw_D_col0 [simp]: "sw_D seq1 seq2 m mm g i 0 = 0"
  by (cases i) simp_all

lemma filled_init:
  "filled seq1 seq2 m mm g (\<lambda>a b. a = 0 \<or> b = 0) (sw_init seq1 seq2)"
  unfolding filled_def sw_init_def fst_conv snd_conv
proof (intro conjI allI impI)
  fix i j
  assume h: "i \<le> length seq1 \<and> j \<le> length seq2 \<and> (i = 0 \<or> j = 0)"
  then have lt: "i * (length seq2 + 1) + j < (length seq1 + 1) * (length seq2 + 1)"
    using cell_index_less by blast
  from h have z: "sw_H seq1 seq2 m mm g i j = 0" "sw_D seq1 seq2 m mm g i j = 0" by auto
  show "replicate ((length seq1 + 1) * (length seq2 + 1)) 0 ! (i * (length seq2 + 1) + j) =
        sw_H seq1 seq2 m mm g i j"
    using lt by (simp only: nth_replicate z)
  show "replicate ((length seq1 + 1) * (length seq2 + 1)) 0 ! (i * (length seq2 + 1) + j) =
        sw_D seq1 seq2 m mm g i j"
    using lt by (simp only: nth_replicate z)
qed simp_all

lemma fold_upt_snoc:
  "a \<le> Suc n \<Longrightarrow> fold f [a ..< Suc n + 1] s = f (Suc n) (fold f [a ..< n + 1] s)"
  by simp

lemma seq_row:
  assumes i: "1 \<le> i" "i \<le> length seq1" and J: "J \<le> length seq2"
    and F: "filled seq1 seq2 m mm g (\<lambda>a b. a = 0 \<or> b = 0 \<or> a < i) st"
  shows "filled seq1 seq2 m mm g (\<lambda>a b. a = 0 \<or> b = 0 \<or> a < i \<or> (a = i \<and> b \<le> J))
           (fold (fill_cell seq1 seq2 m mm g i) [1 ..< J + 1] st)"
  using J
proof (induction J)
  case 0
  have "filled seq1 seq2 m mm g (\<lambda>a b. a = 0 \<or> b = 0 \<or> a < i \<or> (a = i \<and> b \<le> 0)) st"
    by (rule filled_mono[OF F]) auto
  then show ?case by simp
next
  case (Suc J)
  let ?st = "fold (fill_cell seq1 seq2 m mm g i) [1 ..< J + 1] st"
  have IH: "filled seq1 seq2 m mm g (\<lambda>a b. a = 0 \<or> b = 0 \<or> a < i \<or> (a = i \<and> b \<le> J)) ?st"
    using Suc by simp
  have "filled seq1 seq2 m mm g
          (\<lambda>a b. (a = 0 \<or> b = 0 \<or> a < i \<or> (a = i \<and> b \<le> J)) \<or> (a = i \<and> b = Suc J))
          (fill_cell seq1 seq2 m mm g i (Suc J) ?st)"
    using i Suc.prems by (intro filled_step[OF IH]) auto
  then have "filled seq1 seq2 m mm g (\<lambda>a b. a = 0 \<or> b = 0 \<or> a < i \<or> (a = i \<and> b \<le> Suc J))
          (fill_cell seq1 seq2 m mm g i (Suc J) ?st)"
    by (rule filled_mono) auto
  moreover have "fold (fill_cell seq1 seq2 m mm g i) [1 ..< Suc J + 1] st =
      fill_cell seq1 seq2 m mm g i (Suc J) ?st"
    by (rule fold_upt_snoc) simp
  ultimately show ?case by simp
qed

lemma seq_rows:
  assumes "I \<le> length seq1"
  shows "filled seq1 seq2 m mm g (\<lambda>a b. a = 0 \<or> b = 0 \<or> a \<le> I)
           (fold (\<lambda>i. fold (fill_cell seq1 seq2 m mm g i) [1 ..< length seq2 + 1])
              [1 ..< I + 1] (sw_init seq1 seq2))"
  using assms
proof (induction I)
  case 0
  have "filled seq1 seq2 m mm g (\<lambda>a b. a = 0 \<or> b = 0 \<or> a \<le> 0) (sw_init seq1 seq2)"
    using filled_init by (rule filled_mono) auto
  then show ?case by simp
next
  case (Suc I)
  let ?st = "fold (\<lambda>i. fold (fill_cell seq1 seq2 m mm g i) [1 ..< length seq2 + 1])
              [1 ..< I + 1] (sw_init seq1 seq2)"
  have IH: "filled seq1 seq2 m mm g (\<lambda>a b. a = 0 \<or> b = 0 \<or> a \<le> I) ?st"
    using Suc by simp
  then have F: "filled seq1 seq2 m mm g (\<lambda>a b. a = 0 \<or> b = 0 \<or> a < Suc I) ?st"
    by (rule filled_mono) auto
  have "filled seq1 seq2 m mm g
          (\<lambda>a b. a = 0 \<or> b = 0 \<or> a < Suc I \<or> (a = Suc I \<and> b \<le> length seq2))
          (fold (fill_cell seq1 seq2 m mm g (Suc I)) [1 ..< length seq2 + 1] ?st)"
    using Suc.prems by (intro seq_row[OF _ _ _ F]) auto
  then have "filled seq1 seq2 m mm g (\<lambda>a b. a = 0 \<or> b = 0 \<or> a \<le> Suc I)
          (fold (fill_cell seq1 seq2 m mm g (Suc I)) [1 ..< length seq2 + 1] ?st)"
    by (rule filled_mono) auto
  moreover have "fold (\<lambda>i. fold (fill_cell seq1 seq2 m mm g i) [1 ..< length seq2 + 1])
              [1 ..< Suc I + 1] (sw_init seq1 seq2) =
      fold (fill_cell seq1 seq2 m mm g (Suc I)) [1 ..< length seq2 + 1] ?st"
    by (rule fold_upt_snoc) simp
  ultimately show ?case by simp
qed

lemma sw_fill_filled:
  "filled seq1 seq2 m mm g (\<lambda>a b. True) (sw_fill seq1 seq2 m mm g)"
  unfolding sw_fill_def
  by (rule filled_mono[OF seq_rows[of "length seq1"]]) auto

subsection \<open>The wavefront loops\<close>

text \<open>
  The threads of one launch, run in any order: thread \<open>idx\<close> fills the cell of row
  \<open>start_i + idx\<close> on the anti-diagonal, from cells of the two anti-diagonals before.
\<close>

lemma launch_threads:
  assumes rng: "1 \<le> start_i" "end_i \<le> length seq1" "end_i < diag" "diag \<le> start_i + length seq2"
    and F: "filled seq1 seq2 m mm g
              (\<lambda>a b. a = 0 \<or> b = 0 \<or> a + b < diag \<or>
                 (a + b = diag \<and> start_i \<le> a \<and> a \<le> end_i \<and> a - start_i \<in> T)) st"
  shows "filled seq1 seq2 m mm g
           (\<lambda>a b. a = 0 \<or> b = 0 \<or> a + b < diag \<or>
              (a + b = diag \<and> start_i \<le> a \<and> a \<le> end_i \<and> a - start_i \<in> T \<union> set xs))
           (fold (sw_kernel seq1 seq2 len1 (length seq2) diag start_i end_i m mm g) xs st)"
  using F
proof (induction xs arbitrary: st T)
  case Nil
  then show ?case by simp
next
  case (Cons x xs)
  let ?P = "\<lambda>T a b. a = 0 \<or> b = 0 \<or> a + b < diag \<or>
                 (a + b = diag \<and> start_i \<le> a \<and> a \<le> end_i \<and> a - start_i \<in> T)"
  let ?k = "sw_kernel seq1 seq2 len1 (length seq2) diag start_i end_i m mm g"
  have step: "filled seq1 seq2 m mm g (?P (insert x T)) (?k x st)"
  proof (cases "start_i + x > end_i")
    case True
    then have "?k x st = st" by (simp only: sw_kernel_eq if_True)
    moreover have "filled seq1 seq2 m mm g (?P (insert x T)) st"
      by (rule filled_mono[OF Cons.prems]) (use True in auto)
    ultimately show ?thesis by simp
  next
    case False
    define i where "i = start_i + x"
    define j where "j = diag - i"
    have ij: "1 \<le> i" "i \<le> length seq1" "1 \<le> j" "j \<le> length seq2" "i + j = diag"
      using rng False by (auto simp: i_def j_def)
    have k: "?k x st = fill_cell seq1 seq2 m mm g i j st"
      using False by (simp only: sw_kernel_eq i_def j_def if_False)
    have "filled seq1 seq2 m mm g (\<lambda>a b. ?P T a b \<or> (a = i \<and> b = j))
            (fill_cell seq1 seq2 m mm g i j st)"
      using ij by (intro filled_step[OF Cons.prems]) auto
    then have "filled seq1 seq2 m mm g (?P (insert x T)) (fill_cell seq1 seq2 m mm g i j st)"
    proof (rule filled_mono)
      fix a b
      assume "?P (insert x T) a b"
      then show "?P T a b \<or> (a = i \<and> b = j)"
        using ij by (auto simp: i_def)
    qed
    then show ?thesis by (simp only: k)
  qed
  have "filled seq1 seq2 m mm g (?P (insert x T \<union> set xs)) (fold ?k xs (?k x st))"
    by (rule Cons.IH[OF step])
  then show ?case by simp
qed

lemma blocks_cover:
  fixes totalCells :: nat
  shows "totalCells \<le> (totalCells + 256 - 1) div 256 * 256"
proof -
  have "totalCells + 255 = (totalCells + 255) div 256 * 256 + (totalCells + 255) mod 256"
    by simp
  moreover have "(totalCells + 255) mod 256 < 256" by simp
  ultimately show ?thesis by simp
qed

lemma sw_launch_filled:
  assumes ord: "runs_all_threads order"
    and d: "2 \<le> diag"
    and F: "filled seq1 seq2 m mm g (\<lambda>a b. a = 0 \<or> b = 0 \<or> a + b < diag) st"
  shows "filled seq1 seq2 m mm g (\<lambda>a b. a = 0 \<or> b = 0 \<or> a + b \<le> diag)
           (sw_launch order seq1 seq2 m mm g diag st)"
proof -
  define len1 where "len1 = length seq1"
  define len2 where "len2 = length seq2"
  define start_i where "start_i = (if diag > len2 + 1 then diag - (len2 + 1) + 1 else 1)"
  define end_i where "end_i = (if diag - 1 < len1 then diag - 1 else len1)"
  define n where "n = (end_i - start_i + 1 + 256 - 1) div 256 * 256"
  have s1: "(if start_i < 1 then 1 else start_i) = start_i" by (simp add: start_i_def)
  have e1: "(if end_i > len1 then len1 else end_i) = end_i" by (simp add: end_i_def)
  have launch: "sw_launch order seq1 seq2 m mm g diag st =
      (if start_i > len1 \<or> start_i > end_i then st
       else fold (sw_kernel seq1 seq2 len1 len2 diag start_i end_i m mm g) (order diag n) st)"
    unfolding sw_launch_def Let_def len1_def[symmetric] len2_def[symmetric]
      start_i_def[symmetric] end_i_def[symmetric] s1 e1 n_def ..
  show ?thesis
  proof (cases "start_i > len1 \<or> start_i > end_i")
    case True
    have "filled seq1 seq2 m mm g (\<lambda>a b. a = 0 \<or> b = 0 \<or> a + b \<le> diag) st"
      using True d by (intro filled_mono[OF F]) (auto simp: start_i_def end_i_def len1_def len2_def split: if_splits)
    then show ?thesis using True by (simp only: launch if_True)
  next
    case False
    have rng: "1 \<le> start_i" "end_i \<le> length seq1" "end_i < diag" "diag \<le> start_i + length seq2"
      using d by (auto simp: start_i_def end_i_def len1_def len2_def)
    have F0: "filled seq1 seq2 m mm g
              (\<lambda>a b. a = 0 \<or> b = 0 \<or> a + b < diag \<or>
                 (a + b = diag \<and> start_i \<le> a \<and> a \<le> end_i \<and> a - start_i \<in> {})) st"
      by (rule filled_mono[OF F]) auto
    have cover: "end_i - start_i + 1 \<le> n"
      unfolding n_def by (rule blocks_cover)
    have set_ord: "set (order diag n) = {0 ..< n}"
      using ord by (simp add: runs_all_threads_def)
    have "filled seq1 seq2 m mm g
           (\<lambda>a b. a = 0 \<or> b = 0 \<or> a + b < diag \<or>
              (a + b = diag \<and> start_i \<le> a \<and> a \<le> end_i \<and> a - start_i \<in> {} \<union> set (order diag n)))
           (fold (sw_kernel seq1 seq2 len1 (length seq2) diag start_i end_i m mm g) (order diag n) st)"
      by (rule launch_threads[OF rng F0])
    then have "filled seq1 seq2 m mm g (\<lambda>a b. a = 0 \<or> b = 0 \<or> a + b \<le> diag)
           (fold (sw_kernel seq1 seq2 len1 len2 diag start_i end_i m mm g) (order diag n) st)"
      unfolding len2_def
    proof (rule filled_mono)
      fix a b
      assume ab: "a \<le> length seq1" "b \<le> length seq2" "a = 0 \<or> b = 0 \<or> a + b \<le> diag"
      show "a = 0 \<or> b = 0 \<or> a + b < diag \<or>
              (a + b = diag \<and> start_i \<le> a \<and> a \<le> end_i \<and> a - start_i \<in> {} \<union> set (order diag n))"
      proof (cases "a = 0 \<or> b = 0 \<or> a + b < diag")
        case True
        then show ?thesis by blast
      next
        case False
        then have eq: "a + b = diag" "1 \<le> a" "1 \<le> b" using ab by auto
        have "start_i \<le> a" "a \<le> end_i"
          using eq ab by (auto simp: start_i_def end_i_def len1_def len2_def)
        moreover from this have "a - start_i < n" using cover by simp
        ultimately show ?thesis using eq set_ord by simp
      qed
    qed
    then show ?thesis using False by (simp only: launch if_False)
  qed
qed

lemma gpu_diags:
  assumes ord: "runs_all_threads order"
  shows "filled seq1 seq2 m mm g (\<lambda>a b. a = 0 \<or> b = 0 \<or> a + b \<le> D)
           (fold (sw_launch order seq1 seq2 m mm g) [2 ..< D + 1] (sw_init seq1 seq2))"
proof (induction D)
  case 0
  have "filled seq1 seq2 m mm g (\<lambda>a b. a = 0 \<or> b = 0 \<or> a + b \<le> 0) (sw_init seq1 seq2)"
    using filled_init by (rule filled_mono) auto
  then show ?case by simp
next
  case (Suc D)
  show ?case
  proof (cases "2 \<le> Suc D")
    case False
    have "filled seq1 seq2 m mm g (\<lambda>a b. a = 0 \<or> b = 0 \<or> a + b \<le> Suc D) (sw_init seq1 seq2)"
      by (rule filled_mono[OF filled_init]) (use False in auto)
    then show ?thesis using False by simp
  next
    case True
    let ?st = "fold (sw_launch order seq1 seq2 m mm g) [2 ..< D + 1] (sw_init seq1 seq2)"
    have "filled seq1 seq2 m mm g (\<lambda>a b. a = 0 \<or> b = 0 \<or> a + b < Suc D) ?st"
      using Suc by (rule filled_mono) auto
    then have "filled seq1 seq2 m mm g (\<lambda>a b. a = 0 \<or> b = 0 \<or> a + b \<le> Suc D)
        (sw_launch order seq1 seq2 m mm g (Suc D) ?st)"
      by (rule sw_launch_filled[OF ord True])
    moreover have "fold (sw_launch order seq1 seq2 m mm g) [2 ..< Suc D + 1] (sw_init seq1 seq2) =
        sw_launch order seq1 seq2 m mm g (Suc D) ?st"
      using True by (rule fold_upt_snoc)
    ultimately show ?thesis by simp
  qed
qed

lemma gpu_fill_filled:
  assumes "runs_all_threads order"
  shows "filled seq1 seq2 m mm g (\<lambda>a b. True) (gpu_fill order seq1 seq2 m mm g)"
  unfolding gpu_fill_def
  by (rule filled_mono[OF gpu_diags[OF assms, of _ _ _ _ _ "length seq1 + length seq2"]]) auto

subsection \<open>A filled matrix is determined\<close>

lemma filled_nth:
  assumes "filled seq1 seq2 m mm g (\<lambda>a b. True) st" "k < (length seq1 + 1) * (length seq2 + 1)"
  shows "fst st ! k = sw_H seq1 seq2 m mm g (k div (length seq2 + 1)) (k mod (length seq2 + 1))"
    and "snd st ! k = sw_D seq1 seq2 m mm g (k div (length seq2 + 1)) (k mod (length seq2 + 1))"
proof -
  define w where "w = length seq2 + 1"
  have "k div w < length seq1 + 1"
    using assms(2) by (simp add: w_def less_mult_imp_div_less)
  then have a: "k div w \<le> length seq1" by simp
  have b: "k mod w \<le> length seq2" 
    using mod_less_divisor[of w k] by (simp add: w_def)
  have k: "k div w * w + k mod w = k" by simp
  have "fst st ! (k div w * w + k mod w) = sw_H seq1 seq2 m mm g (k div w) (k mod w)"
       "snd st ! (k div w * w + k mod w) = sw_D seq1 seq2 m mm g (k div w) (k mod w)"
    using assms(1) a b unfolding filled_def w_def by blast+
  then have "fst st ! k = sw_H seq1 seq2 m mm g (k div w) (k mod w)"
       "snd st ! k = sw_D seq1 seq2 m mm g (k div w) (k mod w)"
    by (simp_all only: k)
  then show "fst st ! k = sw_H seq1 seq2 m mm g (k div (length seq2 + 1)) (k mod (length seq2 + 1))"
    and "snd st ! k = sw_D seq1 seq2 m mm g (k div (length seq2 + 1)) (k mod (length seq2 + 1))"
    by (simp_all only: w_def)
qed

lemma filled_unique:
  assumes "filled seq1 seq2 m mm g (\<lambda>a b. True) st" "filled seq1 seq2 m mm g (\<lambda>a b. True) st'"
  shows "st = st'"
proof (rule prod_eqI)
  have len: "length (fst st) = (length seq1 + 1) * (length seq2 + 1)"
            "length (fst st') = (length seq1 + 1) * (length seq2 + 1)"
            "length (snd st) = (length seq1 + 1) * (length seq2 + 1)"
            "length (snd st') = (length seq1 + 1) * (length seq2 + 1)"
    using assms by (simp_all add: filled_def)
  show "fst st = fst st'"
    by (rule nth_equalityI) (simp_all add: len filled_nth(1)[OF assms(1)] filled_nth(1)[OF assms(2)])
  show "snd st = snd st'"
    by (rule nth_equalityI) (simp_all add: len filled_nth(2)[OF assms(1)] filled_nth(2)[OF assms(2)])
qed

lemma gpu_fill_eq:
  assumes "runs_all_threads order"
  shows "gpu_fill order seq1 seq2 m mm g = sw_fill seq1 seq2 m mm g"
  by (rule filled_unique[OF gpu_fill_filled[OF assms] sw_fill_filled])

section \<open>Checksum and report\<close>

lemma fold_add_sum_list:
  fixes f :: "nat \<Rightarrow> int"
  shows "fold (\<lambda>i acc. acc + f i) xs a = a + sum_list (map f xs)"
  by (induction xs arbitrary: a) simp_all

lemma gcgChecksum_eq_spec: "gcgChecksum s = checksum_spec s"
proof -
  have "fold (\<lambda>i check. let c = int (c_toupper (of_char (s ! i))) in check + int ((i mod 57) + 1) * c)
          [0 ..< length s] 0 =
        fold (\<lambda>i acc. acc + (int (i mod 57) + 1) * int (c_toupper (of_char (s ! i))))
          [0 ..< length s] 0"
    by (simp add: Let_def add.commute)
  then show ?thesis
    unfolding gcgChecksum_def checksum_spec_def Let_def
    by (simp only: fold_add_sum_list) simp
qed

lemma checksum_spec_snoc:
  "checksum_spec (s @ [c]) =
     (checksum_spec s + (int (length s mod 57) + 1) * int (c_toupper (of_char c))) mod 10000"
proof -
  have h: "map (\<lambda>i. (int (i mod 57) + 1) * int (c_toupper (of_char ((s @ [c]) ! i)))) [0 ..< length s] =
        map (\<lambda>i. (int (i mod 57) + 1) * int (c_toupper (of_char (s ! i)))) [0 ..< length s]"
    by (rule map_cong) (simp_all add: nth_append)
  show ?thesis
    unfolding checksum_spec_def by (simp add: h mod_add_left_eq)
qed

lemma msf_blocks_from:
  "msf_blocks name1 name2 align1 align2 alignLen (50 * k) =
     concat (map (\<lambda>b. printf_s name1 @ replicate (12 - length (printf_s name1)) CHR '' '' @
                       residues align1 (50 * b) (min (50 * b + 50) alignLen) @ ''\<newline>'' @
                       printf_s name2 @ replicate (12 - length (printf_s name2)) CHR '' '' @
                       residues align2 (50 * b) (min (50 * b + 50) alignLen) @ ''\<newline>\<newline>'')
                 [k ..< (alignLen + 49) div 50])"
proof (induction "(alignLen + 49) div 50 - k" arbitrary: k)
  case 0
  then have "(alignLen + 49) div 50 \<le> k" by simp
  then have "alignLen \<le> 50 * k" by linarith
  then have A: "msf_blocks name1 name2 align1 align2 alignLen (50 * k) = []"
    by (subst msf_blocks.simps) simp
  have B: "[k ..< (alignLen + 49) div 50] = []"
    using \<open>(alignLen + 49) div 50 \<le> k\<close> by simp
  show ?case unfolding A B by simp
next
  case (Suc n)
  then have lt: "k < (alignLen + 49) div 50" by simp
  then have lt': "50 * k < alignLen" by linarith
  have IH: "msf_blocks name1 name2 align1 align2 alignLen (50 * Suc k) =
     concat (map (\<lambda>b. printf_s name1 @ replicate (12 - length (printf_s name1)) CHR '' '' @
                       residues align1 (50 * b) (min (50 * b + 50) alignLen) @ ''\<newline>'' @
                       printf_s name2 @ replicate (12 - length (printf_s name2)) CHR '' '' @
                       residues align2 (50 * b) (min (50 * b + 50) alignLen) @ ''\<newline>\<newline>'')
                 [Suc k ..< (alignLen + 49) div 50])"
    using Suc by (intro Suc.hyps(1)) simp
  have e: "(if 50 * k + 50 < alignLen then 50 * k + 50 else alignLen) = min (50 * k + 50) alignLen"
    by (simp add: min_def)
  have step: "msf_blocks name1 name2 align1 align2 alignLen (50 * k) =
      printf_s name1 @ replicate (12 - length (printf_s name1)) CHR '' '' @
        residues align1 (50 * k) (min (50 * k + 50) alignLen) @ ''\<newline>'' @
      printf_s name2 @ replicate (12 - length (printf_s name2)) CHR '' '' @
        residues align2 (50 * k) (min (50 * k + 50) alignLen) @ ''\<newline>\<newline>'' @
      msf_blocks name1 name2 align1 align2 alignLen (50 * Suc k)"
    using lt' by (subst msf_blocks.simps) (simp only: Let_def e printf_minus12s_def if_True append_assoc mult_Suc_right add.commute[of 50])
  show ?case
    unfolding step IH by (simp add: upt_conv_Cons[OF lt])
qed

section \<open>The best cell\<close>

lemma best_upto_step:
  assumes "best_upto f len2 i J acc" "1 \<le> i" "J < len2"
  shows "best_upto f len2 i (Suc J)
           (case acc of (maxScore, max_i, max_j) \<Rightarrow>
              let val = f i (Suc J)
              in if val > maxScore then (val, i, Suc J) else (maxScore, max_i, max_j))"
proof -
  obtain ms mi mj where acc: "acc = (ms, mi, mj)" by (cases acc)
  have le: "\<And>a b. 1 \<le> a \<Longrightarrow> 1 \<le> b \<Longrightarrow> b \<le> len2 \<Longrightarrow> a < i \<or> (a = i \<and> b \<le> J) \<Longrightarrow> f a b \<le> ms"
    using assms(1) unfolding best_upto_def acc by simp
  have B: "(ms = 0 \<and> mi = 0 \<and> mj = 0) \<or>
         (0 < ms \<and> 1 \<le> mi \<and> 1 \<le> mj \<and> mj \<le> len2 \<and> (mi < i \<or> (mi = i \<and> mj \<le> J)) \<and>
          f mi mj = ms \<and>
          (\<forall>a b. 1 \<le> a \<and> 1 \<le> b \<and> b \<le> len2 \<and> (a < mi \<or> (a = mi \<and> b < mj)) \<longrightarrow> f a b < ms))"
    using assms(1) unfolding best_upto_def acc by simp
  have ms0: "0 \<le> ms" using B by auto
  show ?thesis
  proof (cases "f i (Suc J) > ms")
    case True
    have 1: "f a b \<le> f i (Suc J)"
      if "1 \<le> a" "1 \<le> b" "b \<le> len2" "a < i \<or> (a = i \<and> b \<le> Suc J)" for a b
    proof (cases "a = i \<and> b = Suc J")
      case True then show ?thesis by simp
    next
      case False
      then have "a < i \<or> (a = i \<and> b \<le> J)" using that(4) by auto
      from le[OF that(1-3) this] \<open>f i (Suc J) > ms\<close> show ?thesis by simp
    qed
    have 2: "f a b < f i (Suc J)"
      if "1 \<le> a" "1 \<le> b" "b \<le> len2" "a < i \<or> (a = i \<and> b < Suc J)" for a b
    proof -
      have "a < i \<or> (a = i \<and> b \<le> J)" using that(4) by auto
      from le[OF that(1-3) this] True show ?thesis by simp
    qed
    have "best_upto f len2 i (Suc J) (f i (Suc J), i, Suc J)"
      unfolding best_upto_def using 1 2 True ms0 assms(2,3) by auto
    then show ?thesis using True by (simp add: acc Let_def)
  next
    case False
    have 1: "f a b \<le> ms"
      if "1 \<le> a" "1 \<le> b" "b \<le> len2" "a < i \<or> (a = i \<and> b \<le> Suc J)" for a b
    proof (cases "a = i \<and> b = Suc J")
      case True then show ?thesis using False by simp
    next
      case F: False
      then have "a < i \<or> (a = i \<and> b \<le> J)" using that(4) by auto
      from le[OF that(1-3) this] show ?thesis .
    qed
    have "best_upto f len2 i (Suc J) (ms, mi, mj)"
      unfolding best_upto_def using 1 B by auto
    then show ?thesis using False by (simp add: acc Let_def)
  qed
qed

lemma best_upto_row:
  assumes "best_upto f len2 i 0 acc" "1 \<le> i" "J \<le> len2"
  shows "best_upto f len2 i J
           (fold (\<lambda>j (maxScore, max_i, max_j).
                    let val = f i j
                    in if val > maxScore then (val, i, j) else (maxScore, max_i, max_j))
                 [1 ..< J + 1] acc)"
  using assms(3)
proof (induction J)
  case 0
  then show ?case using assms(1) by simp
next
  case (Suc J)
  let ?step = "\<lambda>j (maxScore, max_i, max_j).
                    let val = f i j
                    in if val > maxScore then (val, i, j) else (maxScore, max_i, max_j)"
  have IH: "best_upto f len2 i J (fold ?step [1 ..< J + 1] acc)"
    by (rule Suc.IH) (use Suc.prems in simp)
  have "best_upto f len2 i (Suc J) (?step (Suc J) (fold ?step [1 ..< J + 1] acc))"
    by (rule best_upto_step[OF IH assms(2)]) (use Suc.prems in simp)
  moreover have "fold ?step [1 ..< Suc J + 1] acc = ?step (Suc J) (fold ?step [1 ..< J + 1] acc)"
    by (rule fold_upt_snoc) simp
  ultimately show ?case by (simp only:)
qed

lemma best_upto_next_row:
  "best_upto f len2 i len2 acc \<Longrightarrow> best_upto f len2 (Suc i) 0 acc"
  unfolding best_upto_def by (cases acc) (auto simp: less_Suc_eq)

lemma best_upto_rows:
  "best_upto f len2 I len2
           (fold (\<lambda>i. fold (\<lambda>j (maxScore, max_i, max_j).
                    let val = f i j
                    in if val > maxScore then (val, i, j) else (maxScore, max_i, max_j))
                 [1 ..< len2 + 1]) [1 ..< I + 1] (0, 0, 0))"
proof (induction I)
  case 0
  show ?case by (simp add: best_upto_def)
next
  case (Suc I)
  let ?row = "\<lambda>i. fold (\<lambda>j (maxScore, max_i, max_j).
                    let val = f i j
                    in if val > maxScore then (val, i, j) else (maxScore, max_i, max_j))
                 [1 ..< len2 + 1]"
  have "best_upto f len2 (Suc I) 0 (fold ?row [1 ..< I + 1] (0, 0, 0))"
    by (rule best_upto_next_row[OF Suc])
  then have "best_upto f len2 (Suc I) len2 (?row (Suc I) (fold ?row [1 ..< I + 1] (0, 0, 0)))"
    by (rule best_upto_row) simp_all
  moreover have "fold ?row [1 ..< Suc I + 1] (0, 0, 0) = ?row (Suc I) (fold ?row [1 ..< I + 1] (0, 0, 0))"
    by (rule fold_upt_snoc) simp
  ultimately show ?case by (simp only:)
qed

lemma find_max_best:
  "best_upto (\<lambda>a b. score ! (a * (len2 + 1) + b)) len2 len1 len2 (find_max len1 len2 score)"
  unfolding find_max_def by (rule best_upto_rows)

lemma find_max_props:
  assumes "find_max len1 len2 score = (ms, mi, mj)"
  shows "\<And>a b. 1 \<le> a \<Longrightarrow> a \<le> len1 \<Longrightarrow> 1 \<le> b \<Longrightarrow> b \<le> len2 \<Longrightarrow> score ! (a * (len2 + 1) + b) \<le> ms"
    and "(ms = 0 \<and> mi = 0 \<and> mj = 0) \<or>
         (0 < ms \<and> 1 \<le> mi \<and> mi \<le> len1 \<and> 1 \<le> mj \<and> mj \<le> len2 \<and>
          score ! (mi * (len2 + 1) + mj) = ms \<and>
          (\<forall>a b. 1 \<le> a \<and> 1 \<le> b \<and> b \<le> len2 \<and> (a < mi \<or> (a = mi \<and> b < mj)) \<longrightarrow>
             score ! (a * (len2 + 1) + b) < ms))"
proof -
  define f where "f = (\<lambda>a b. score ! (a * (len2 + 1) + b))"
  have b: "best_upto f len2 len1 len2 (ms, mi, mj)"
    using find_max_best[of score len2 len1] unfolding assms f_def .
  have 1: "\<And>a b. 1 \<le> a \<Longrightarrow> a \<le> len1 \<Longrightarrow> 1 \<le> b \<Longrightarrow> b \<le> len2 \<Longrightarrow> f a b \<le> ms"
    using b unfolding best_upto_def by (auto simp: le_less)
  have 2: "(ms = 0 \<and> mi = 0 \<and> mj = 0) \<or>
         (0 < ms \<and> 1 \<le> mi \<and> mi \<le> len1 \<and> 1 \<le> mj \<and> mj \<le> len2 \<and>
          f mi mj = ms \<and>
          (\<forall>a b. 1 \<le> a \<and> 1 \<le> b \<and> b \<le> len2 \<and> (a < mi \<or> (a = mi \<and> b < mj)) \<longrightarrow> f a b < ms))"
    using b unfolding best_upto_def by auto
  show "\<And>a b. 1 \<le> a \<Longrightarrow> a \<le> len1 \<Longrightarrow> 1 \<le> b \<Longrightarrow> b \<le> len2 \<Longrightarrow> score ! (a * (len2 + 1) + b) \<le> ms"
    using 1 unfolding f_def .
  show "(ms = 0 \<and> mi = 0 \<and> mj = 0) \<or>
         (0 < ms \<and> 1 \<le> mi \<and> mi \<le> len1 \<and> 1 \<le> mj \<and> mj \<le> len2 \<and>
          score ! (mi * (len2 + 1) + mj) = ms \<and>
          (\<forall>a b. 1 \<le> a \<and> 1 \<le> b \<and> b \<le> len2 \<and> (a < mi \<or> (a = mi \<and> b < mj)) \<longrightarrow>
             score ! (a * (len2 + 1) + b) < ms))"
    using 2 unfolding f_def .
qed

section \<open>The traceback\<close>

lemma tb_step_Some:
  assumes "tb_step seq1 seq2 dir ti tj a1 a2 = Some (b1, b2, ti', tj')"
  shows "\<exists>x y. b1 = a1 @ [x] \<and> b2 = a2 @ [y] \<and>
           ((dir ! (ti * (length seq2 + 1) + tj) = 1 \<and> x = seq1 ! (ti - 1) \<and>
               y = seq2 ! (tj - 1) \<and> ti' = ti - 1 \<and> tj' = tj - 1) \<or>
            (dir ! (ti * (length seq2 + 1) + tj) = 2 \<and> x = seq1 ! (ti - 1) \<and>
               y = CHR ''-'' \<and> ti' = ti - 1 \<and> tj' = tj) \<or>
            (dir ! (ti * (length seq2 + 1) + tj) = 3 \<and> x = CHR ''-'' \<and>
               y = seq2 ! (tj - 1) \<and> ti' = ti \<and> tj' = tj - 1))"
proof -
  define d where "d = dir ! (ti * (length seq2 + 1) + tj)"
  have "(if d = 0 then None
      else if d = 1 then Some (a1 @ [seq1 ! (ti - 1)], a2 @ [seq2 ! (tj - 1)], ti - 1, tj - 1)
      else if d = 2 then Some (a1 @ [seq1 ! (ti - 1)], a2 @ [CHR ''-''], ti - 1, tj)
      else if d = 3 then Some (a1 @ [CHR ''-''], a2 @ [seq2 ! (tj - 1)], ti, tj - 1)
      else None) = Some (b1, b2, ti', tj')"
    using assms unfolding tb_step_def Let_def d_def .
  then show ?thesis
    unfolding d_def[symmetric] by (auto split: if_splits)
qed

lemma tb_step_None:
  "tb_step seq1 seq2 dir ti tj a1 a2 = None \<longleftrightarrow>
     dir ! (ti * (length seq2 + 1) + tj) = 0 \<or> 3 < dir ! (ti * (length seq2 + 1) + tj)"
proof -
  define d where "d = dir ! (ti * (length seq2 + 1) + tj)"
  have "tb_step seq1 seq2 dir ti tj a1 a2 = (if d = 0 then None
      else if d = 1 then Some (a1 @ [seq1 ! (ti - 1)], a2 @ [seq2 ! (tj - 1)], ti - 1, tj - 1)
      else if d = 2 then Some (a1 @ [seq1 ! (ti - 1)], a2 @ [CHR ''-''], ti - 1, tj)
      else if d = 3 then Some (a1 @ [CHR ''-''], a2 @ [seq2 ! (tj - 1)], ti, tj - 1)
      else None)"
    unfolding tb_step_def Let_def d_def ..
  then show ?thesis
    unfolding d_def[symmetric] by (auto split: if_splits)
qed

lemma tb_loop_boundary:
  "ti = 0 \<or> tj = 0 \<Longrightarrow> tb_loop seq1 seq2 score dir ti tj a1 a2 path = (a1, a2, path)"
  by (subst tb_loop.simps) auto

lemma tb_loop_break:
  "0 < ti \<Longrightarrow> 0 < tj \<Longrightarrow> tb_step seq1 seq2 dir ti tj a1 a2 = None \<Longrightarrow>
   tb_loop seq1 seq2 score dir ti tj a1 a2 path = (a1, a2, path)"
  by (subst tb_loop.simps) simp

lemma tb_loop_last:
  "0 < ti \<Longrightarrow> 0 < tj \<Longrightarrow> tb_step seq1 seq2 dir ti tj a1 a2 = Some (b1, b2, ti', tj') \<Longrightarrow>
   score ! (ti' * (length seq2 + 1) + tj') = 0 \<Longrightarrow>
   tb_loop seq1 seq2 score dir ti tj a1 a2 path = (b1, b2, path @ [(ti', tj')])"
  by (subst tb_loop.simps) simp

lemma tb_loop_move:
  "0 < ti \<Longrightarrow> 0 < tj \<Longrightarrow> tb_step seq1 seq2 dir ti tj a1 a2 = Some (b1, b2, ti', tj') \<Longrightarrow>
   score ! (ti' * (length seq2 + 1) + tj') \<noteq> 0 \<Longrightarrow>
   tb_loop seq1 seq2 score dir ti tj a1 a2 path =
     tb_loop seq1 seq2 score dir ti' tj' b1 b2 (path @ [(ti', tj')])"
  by (subst tb_loop.simps) simp

text \<open>
  Every column the traceback emits pairs two residues, or a residue of the first
  sequence with a gap, or a gap with a residue of the second sequence.
\<close>

lemma tb_loop_columns:
  assumes "ti \<le> length seq1" "tj \<le> length seq2" "length a1 = length a2"
    and "\<forall>c \<in> set (zip a1 a2).
           (fst c \<in> set seq1 \<and> snd c \<in> set seq2) \<or> (fst c \<in> set seq1 \<and> snd c = CHR ''-'') \<or>
           (fst c = CHR ''-'' \<and> snd c \<in> set seq2)"
  shows "length (fst (tb_loop seq1 seq2 score dir ti tj a1 a2 path)) =
           length (fst (snd (tb_loop seq1 seq2 score dir ti tj a1 a2 path))) \<and>
         (\<forall>c \<in> set (zip (fst (tb_loop seq1 seq2 score dir ti tj a1 a2 path))
                         (fst (snd (tb_loop seq1 seq2 score dir ti tj a1 a2 path)))).
           (fst c \<in> set seq1 \<and> snd c \<in> set seq2) \<or> (fst c \<in> set seq1 \<and> snd c = CHR ''-'') \<or>
           (fst c = CHR ''-'' \<and> snd c \<in> set seq2))"
  using assms
proof (induction seq1 seq2 score dir ti tj a1 a2 path rule: tb_loop.induct)
  case (1 seq1 seq2 score dir ti tj align1 align2 path)
  let ?ok = "\<lambda>c. (fst c \<in> set seq1 \<and> snd c \<in> set seq2) \<or> (fst c \<in> set seq1 \<and> snd c = CHR ''-'') \<or>
           (fst c = CHR ''-'' \<and> snd c \<in> set seq2)"
  show ?case
  proof (cases "ti > 0 \<and> tj > 0")
    case False
    then have "tb_loop seq1 seq2 score dir ti tj align1 align2 path = (align1, align2, path)"
      by (intro tb_loop_boundary) simp
    then show ?thesis using "1.prems" by simp
  next
    case pos: True
    show ?thesis
    proof (cases "tb_step seq1 seq2 dir ti tj align1 align2")
      case None
      then have "tb_loop seq1 seq2 score dir ti tj align1 align2 path = (align1, align2, path)"
        using pos by (intro tb_loop_break) simp_all
      then show ?thesis using "1.prems" by simp
    next
      case (Some r)
      obtain b1 b2 ti' tj' where r: "r = (b1, b2, ti', tj')" by (cases r)
      note st = Some[unfolded r]
      from tb_step_Some[OF st] obtain x y where
        b: "b1 = align1 @ [x]" "b2 = align2 @ [y]"
        and mv: "(x = seq1 ! (ti - 1) \<and> y = seq2 ! (tj - 1) \<and> ti' = ti - 1 \<and> tj' = tj - 1) \<or>
                 (x = seq1 ! (ti - 1) \<and> y = CHR ''-'' \<and> ti' = ti - 1 \<and> tj' = tj) \<or>
                 (x = CHR ''-'' \<and> y = seq2 ! (tj - 1) \<and> ti' = ti \<and> tj' = tj - 1)"
        by blast
      from mv have le: "ti' \<le> ti" "tj' \<le> tj" by auto
      from mv have xy: "(x = seq1 ! (ti - 1) \<and> y = seq2 ! (tj - 1)) \<or> (x = seq1 ! (ti - 1) \<and> y = CHR ''-'') \<or>
                 (x = CHR ''-'' \<and> y = seq2 ! (tj - 1))"
        by blast
      have mem: "seq1 ! (ti - 1) \<in> set seq1" "seq2 ! (tj - 1) \<in> set seq2"
        using pos "1.prems"(1,2) by (auto intro!: nth_mem)
      have okxy: "?ok (x, y)" using xy mem by auto
      have len: "length b1 = length b2" using b "1.prems"(3) by simp
      have cols: "\<forall>c \<in> set (zip b1 b2). ?ok c"
        using "1.prems"(3,4) okxy unfolding b by (simp add: zip_append)
      show ?thesis
      proof (cases "score ! (ti' * (length seq2 + 1) + tj') = 0")
        case True
        then have "tb_loop seq1 seq2 score dir ti tj align1 align2 path = (b1, b2, path @ [(ti', tj')])"
          using pos st by (intro tb_loop_last) simp_all
        then show ?thesis using len cols by simp
      next
        case False
        then have eq: "tb_loop seq1 seq2 score dir ti tj align1 align2 path =
            tb_loop seq1 seq2 score dir ti' tj' b1 b2 (path @ [(ti', tj')])"
          using pos st by (intro tb_loop_move) simp_all
        have "ti' \<le> length seq1" "tj' \<le> length seq2" using le "1.prems"(1,2) by simp_all
        from "1.IH"[OF pos st refl refl refl False this len cols]
        show ?thesis unfolding eq .
      qed
    qed
  qed
qed

subsection \<open>Scores and directions of the recurrence\<close>

lemma direction_spec_chain:
  "direction_spec b d u l =
     (if b = 0 then 0 else if d = b then 1 else if u = b then 2 else if l = b then 3 else 0)"
  by (simp add: direction_spec_def)

lemma sw_H_nonneg: "0 \<le> sw_H seq1 seq2 m mm g i j"
  by (cases i; cases j) simp_all

lemma sw_D_zero_iff: "sw_D seq1 seq2 m mm g i j = 0 \<longleftrightarrow> sw_H seq1 seq2 m mm g i j = 0"
proof (cases i)
  case 0
  then show ?thesis by simp
next
  case (Suc i')
  show ?thesis
  proof (cases j)
    case 0
    then show ?thesis by simp
  next
    case (Suc j')
    define d where "d = int32 (sw_H seq1 seq2 m mm g i' j' + (if seq1 ! i' = seq2 ! j' then m else mm))"
    define u where "u = int32 (sw_H seq1 seq2 m mm g i' (Suc j') + g)"
    define l where "l = int32 (sw_H seq1 seq2 m mm g (Suc i') j' + g)"
    have H: "sw_H seq1 seq2 m mm g i j = max 0 (max d (max u l))"
      unfolding \<open>i = Suc i'\<close> \<open>j = Suc j'\<close> d_def u_def l_def by (rule sw_H.simps(3))
    have D: "sw_D seq1 seq2 m mm g i j = direction_spec (max 0 (max d (max u l))) d u l"
      unfolding \<open>i = Suc i'\<close> \<open>j = Suc j'\<close> d_def u_def l_def sw_D.simps(3) sw_H.simps(3) ..
    show ?thesis
      unfolding H D direction_spec_chain by (simp add: max_def)
  qed
qed

lemma sw_D_le3: "sw_D seq1 seq2 m mm g i j \<le> 3"
proof (cases i)
  case 0
  then show ?thesis by simp
next
  case (Suc i')
  show ?thesis
  proof (cases j)
    case 0
    then show ?thesis by simp
  next
    case (Suc j')
    show ?thesis
      unfolding \<open>i = Suc i'\<close> \<open>j = Suc j'\<close> sw_D.simps(3) direction_spec_chain by simp
  qed
qed

lemma filled_cell:
  assumes "filled seq1 seq2 m mm g (\<lambda>a b. True) (score, dir)" "a \<le> length seq1" "b \<le> length seq2"
  shows "score ! (a * (length seq2 + 1) + b) = sw_H seq1 seq2 m mm g a b"
    and "dir ! (a * (length seq2 + 1) + b) = sw_D seq1 seq2 m mm g a b"
  using assms unfolding filled_def by simp_all

lemma filled_nonneg:
  assumes "filled seq1 seq2 m mm g (\<lambda>a b. True) st" "x \<in> set (fst st)"
  shows "0 \<le> x"
proof -
  from assms(2) obtain k where k: "k < length (fst st)" "fst st ! k = x"
    by (auto simp: in_set_conv_nth)
  have "length (fst st) = (length seq1 + 1) * (length seq2 + 1)"
    using assms(1) by (simp add: filled_def)
  with k have "x = sw_H seq1 seq2 m mm g (k div (length seq2 + 1)) (k mod (length seq2 + 1))"
    using filled_nth(1)[OF assms(1), of k] by simp
  then show ?thesis by (simp only: sw_H_nonneg)
qed

subsection \<open>The walk on a filled matrix\<close>

lemma tb_loop_path:
  assumes "filled seq1 seq2 m mm g (\<lambda>a b. True) (score, dir)"
    and "ti \<le> length seq1" "tj \<le> length seq2"
    and "path \<noteq> []" "last path = (ti, tj)"
    and "\<forall>c \<in> set (butlast path). score ! (fst c * (length seq2 + 1) + snd c) \<noteq> 0"
  shows "snd (snd (tb_loop seq1 seq2 score dir ti tj a1 a2 path)) \<noteq> [] \<and>
         (\<forall>c \<in> set (butlast (snd (snd (tb_loop seq1 seq2 score dir ti tj a1 a2 path)))).
            score ! (fst c * (length seq2 + 1) + snd c) \<noteq> 0) \<and>
         score ! (fst (last (snd (snd (tb_loop seq1 seq2 score dir ti tj a1 a2 path)))) *
                    (length seq2 + 1) +
                  snd (last (snd (snd (tb_loop seq1 seq2 score dir ti tj a1 a2 path))))) = 0"
  using assms
proof (induction seq1 seq2 score dir ti tj a1 a2 path rule: tb_loop.induct)
  case (1 seq1 seq2 score dir ti tj align1 align2 path)
  note F = "1.prems"(1)
  have S: "score ! (ti * (length seq2 + 1) + tj) = sw_H seq1 seq2 m mm g ti tj"
    and D: "dir ! (ti * (length seq2 + 1) + tj) = sw_D seq1 seq2 m mm g ti tj"
    using filled_cell[OF F "1.prems"(2,3)] by simp_all
  have here: "score ! (fst (last path) * (length seq2 + 1) + snd (last path)) =
      sw_H seq1 seq2 m mm g ti tj"
    using S "1.prems"(5) by simp
  show ?case
  proof (cases "ti > 0 \<and> tj > 0")
    case False
    then have eq: "tb_loop seq1 seq2 score dir ti tj align1 align2 path = (align1, align2, path)"
      by (intro tb_loop_boundary) simp
    have "sw_H seq1 seq2 m mm g ti tj = 0" using False by auto
    then show ?thesis unfolding eq using "1.prems"(4,6) here by simp
  next
    case pos: True
    show ?thesis
    proof (cases "tb_step seq1 seq2 dir ti tj align1 align2")
      case None
      then have eq: "tb_loop seq1 seq2 score dir ti tj align1 align2 path = (align1, align2, path)"
        using pos by (intro tb_loop_break) simp_all
      from None have "sw_D seq1 seq2 m mm g ti tj = 0"
        unfolding tb_step_None D using sw_D_le3[of seq1 seq2 m mm g ti tj] by simp
      then have "sw_H seq1 seq2 m mm g ti tj = 0" by (simp only: sw_D_zero_iff)
      then show ?thesis unfolding eq using "1.prems"(4,6) here by simp
    next
      case (Some r)
      obtain b1 b2 ti' tj' where r: "r = (b1, b2, ti', tj')" by (cases r)
      note st = Some[unfolded r]
      from tb_step_Some[OF st] have mv: "sw_D seq1 seq2 m mm g ti tj \<noteq> 0" "ti' \<le> ti" "tj' \<le> tj"
        unfolding D by auto
      then have nz: "sw_H seq1 seq2 m mm g ti tj \<noteq> 0" by (simp only: sw_D_zero_iff not_False_eq_True)
      have all: "\<forall>c \<in> set path. score ! (fst c * (length seq2 + 1) + snd c) \<noteq> 0"
      proof
        fix c assume "c \<in> set path"
        then have "c \<in> set (butlast path) \<or> c = last path"
          using "1.prems"(4) by (metis append_butlast_last_id in_set_conv_decomp_first
              Un_iff insert_iff list.set(2) set_append empty_iff list.set(1))
        then show "score ! (fst c * (length seq2 + 1) + snd c) \<noteq> 0"
          using "1.prems"(6) here nz by auto
      qed
      have rng: "ti' \<le> length seq1" "tj' \<le> length seq2" using mv "1.prems"(2,3) by simp_all
      show ?thesis
      proof (cases "score ! (ti' * (length seq2 + 1) + tj') = 0")
        case True
        then have eq: "tb_loop seq1 seq2 score dir ti tj align1 align2 path =
            (b1, b2, path @ [(ti', tj')])"
          using pos st by (intro tb_loop_last) simp_all
        show ?thesis unfolding eq using all True by simp
      next
        case False
        then have eq: "tb_loop seq1 seq2 score dir ti tj align1 align2 path =
            tb_loop seq1 seq2 score dir ti' tj' b1 b2 (path @ [(ti', tj')])"
          using pos st by (intro tb_loop_move) simp_all
        have p: "path @ [(ti', tj')] \<noteq> []" "last (path @ [(ti', tj')]) = (ti', tj')"
          "\<forall>c \<in> set (butlast (path @ [(ti', tj')])). score ! (fst c * (length seq2 + 1) + snd c) \<noteq> 0"
          using all by simp_all
        from "1.IH"[OF pos st refl refl refl False F rng p]
        show ?thesis unfolding eq .
      qed
    qed
  qed
qed

subsection \<open>The result of the walk\<close>

lemma find_max_in_range:
  assumes "find_max len1 len2 score = (ms, mi, mj)"
  shows "mi \<le> len1" "mj \<le> len2"
  using find_max_props(2)[OF assms] by auto

lemma gap_to_dot_nth:
  "k < length s \<Longrightarrow> gap_to_dot s ! k = CHR ''.'' \<longleftrightarrow> s ! k = CHR ''-'' \<or> s ! k = CHR ''.''"
  by (simp add: gap_to_dot_def)

lemma sw_walk_shape:
  "length (fst (fst (sw_walk seq1 seq2 st))) = length (fst (snd (fst (sw_walk seq1 seq2 st)))) \<and>
   (CHR ''-'' \<notin> set seq1 \<union> set seq2 \<and> CHR ''.'' \<notin> set seq1 \<union> set seq2 \<longrightarrow>
      (\<forall>k < length (fst (fst (sw_walk seq1 seq2 st))).
         \<not> (fst (fst (sw_walk seq1 seq2 st)) ! k = CHR ''.'' \<and>
            fst (snd (fst (sw_walk seq1 seq2 st))) ! k = CHR ''.'')))"
proof -
  obtain ms mi mj where fm: "find_max (length seq1) (length seq2) (fst st) = (ms, mi, mj)"
    by (cases "find_max (length seq1) (length seq2) (fst st)")
  define r where "r = tb_loop seq1 seq2 (fst st) (snd st) mi mj [] [] [(mi, mj)]"
  define b1 where "b1 = fst r"
  define b2 where "b2 = fst (snd r)"
  have walk: "fst (sw_walk seq1 seq2 st) = (gap_to_dot (rev b1), gap_to_dot (rev b2), ms)"
    unfolding sw_walk_def Let_def fm b1_def b2_def r_def by (simp add: case_prod_beta)
  have cols: "length b1 = length b2 \<and>
         (\<forall>c \<in> set (zip b1 b2).
           (fst c \<in> set seq1 \<and> snd c \<in> set seq2) \<or> (fst c \<in> set seq1 \<and> snd c = CHR ''-'') \<or>
           (fst c = CHR ''-'' \<and> snd c \<in> set seq2))"
    unfolding b1_def b2_def r_def
    by (rule tb_loop_columns[OF find_max_in_range[OF fm]]) simp_all
  then have len: "length b1 = length b2" by simp
  have nogap: "\<not> (gap_to_dot (rev b1) ! k = CHR ''.'' \<and> gap_to_dot (rev b2) ! k = CHR ''.'')"
    if k: "k < length b1"
      and no: "CHR ''-'' \<notin> set seq1 \<union> set seq2" "CHR ''.'' \<notin> set seq1 \<union> set seq2" for k
  proof
    assume dots: "gap_to_dot (rev b1) ! k = CHR ''.'' \<and> gap_to_dot (rev b2) ! k = CHR ''.''"
    define x where "x = rev b1 ! k"
    define y where "y = rev b2 ! k"
    have "(x, y) = zip (rev b1) (rev b2) ! k" using k len by (simp add: x_def y_def)
    also have "\<dots> \<in> set (zip (rev b1) (rev b2))" using k len by (intro nth_mem) simp
    also have "set (zip (rev b1) (rev b2)) = set (zip b1 b2)" using len by (simp add: zip_rev)
    finally have "(x, y) \<in> set (zip b1 b2)" .
    with cols have ok: "(x \<in> set seq1 \<and> y \<in> set seq2) \<or> (x \<in> set seq1 \<and> y = CHR ''-'') \<or>
           (x = CHR ''-'' \<and> y \<in> set seq2)" by auto
    from dots have "(x = CHR ''-'' \<or> x = CHR ''.'') \<and> (y = CHR ''-'' \<or> y = CHR ''.'')"
      using k len by (simp add: gap_to_dot_nth x_def y_def)
    with ok no show False by auto
  qed
  show ?thesis
    unfolding walk fst_conv snd_conv using len nogap by (simp add: gap_to_dot_def)
qed

lemma sw_walk_all_zero:
  assumes "\<forall>a b. 1 \<le> a \<and> a \<le> length seq1 \<and> 1 \<le> b \<and> b \<le> length seq2 \<longrightarrow>
             fst st ! (a * (length seq2 + 1) + b) \<le> 0"
  shows "fst (sw_walk seq1 seq2 st) = ([], [], 0)"
    and "find_max (length seq1) (length seq2) (fst st) = (0, 0, 0)"
proof -
  obtain ms mi mj where fm: "find_max (length seq1) (length seq2) (fst st) = (ms, mi, mj)"
    by (cases "find_max (length seq1) (length seq2) (fst st)")
  from find_max_props(2)[OF fm] assms have z: "ms = 0 \<and> mi = 0 \<and> mj = 0"
    by (metis not_less)
  then show "find_max (length seq1) (length seq2) (fst st) = (0, 0, 0)" using fm by simp
  have "tb_loop seq1 seq2 (fst st) (snd st) 0 0 [] [] [(0, 0)] = ([], [], [(0, 0)])"
    by (rule tb_loop_boundary) simp
  then show "fst (sw_walk seq1 seq2 st) = ([], [], 0)"
    unfolding sw_walk_def Let_def fm using z by (simp add: gap_to_dot_def)
qed

lemma sw_walk_path:
  assumes F: "filled seq1 seq2 m mm g (\<lambda>a b. True) st"
  shows "snd (sw_walk seq1 seq2 st) \<noteq> [] \<and>
         (\<forall>c \<in> set (butlast (snd (sw_walk seq1 seq2 st))).
            fst st ! (fst c * (length seq2 + 1) + snd c) \<noteq> 0) \<and>
         fst st ! (fst (last (snd (sw_walk seq1 seq2 st))) * (length seq2 + 1) +
                   snd (last (snd (sw_walk seq1 seq2 st)))) = 0"
proof -
  obtain ms mi mj where fm: "find_max (length seq1) (length seq2) (fst st) = (ms, mi, mj)"
    by (cases "find_max (length seq1) (length seq2) (fst st)")
  have walk: "snd (sw_walk seq1 seq2 st) =
      snd (snd (tb_loop seq1 seq2 (fst st) (snd st) mi mj [] [] [(mi, mj)]))"
    unfolding sw_walk_def Let_def fm by (simp add: case_prod_beta)
  have F': "filled seq1 seq2 m mm g (\<lambda>a b. True) (fst st, snd st)" using F by simp
  show ?thesis
    unfolding walk
    by (rule tb_loop_path[OF F' find_max_in_range[OF fm]]) simp_all
qed

section \<open>Aligning a sequence with itself\<close>

text \<open>
  With match 2, mismatch -1, gap -1 no cell exceeds twice its row or column index, as
  long as the sequences are short enough for the sums to stay inside 32 bits.
\<close>

lemma int32_id: "in_int32 x \<Longrightarrow> int32 x = x"
  unfolding in_int32_def int32_def by (simp add: mod_pos_pos_trivial)

lemma sw_H_le_twice:
  assumes "i \<le> 1000000000" "j \<le> 1000000000"
  shows "sw_H seq1 seq2 2 (- 1) (- 1) i j \<le> 2 * int (min i j)"
  using assms
proof (induction i arbitrary: j)
  case 0
  show ?case by simp
next
  case (Suc i)
  note outer = Suc.IH
  note bi = Suc.prems(1)
  show ?case using Suc.prems(2)
  proof (induction j)
    case 0
    show ?case by simp
  next
    case (Suc j)
    define a where "a = sw_H seq1 seq2 2 (- 1) (- 1) i j"
    define b where "b = sw_H seq1 seq2 2 (- 1) (- 1) i (Suc j)"
    define c where "c = sw_H seq1 seq2 2 (- 1) (- 1) (Suc i) j"
    define e where "e = (if seq1 ! i = seq2 ! j then 2 else - 1 :: int)"
    define n where "n = int (min i j)"
    have n: "0 \<le> n" "n \<le> 999999999" using bi Suc.prems by (simp_all add: n_def)
    have mn: "int (min (Suc i) (Suc j)) = n + 1" by (simp add: n_def)
    have ij: "i \<le> 1000000000" "j \<le> 1000000000" using bi Suc.prems by simp_all
    have nn: "0 \<le> a" "0 \<le> b" "0 \<le> c"
      by (simp_all only: a_def b_def c_def sw_H_nonneg)
    have "a \<le> 2 * int (min i j)"
      unfolding a_def by (rule outer[OF ij])
    then have a: "a \<le> 2 * n" by (simp only: n_def)
    have "b \<le> 2 * int (min i (Suc j))"
      unfolding b_def by (rule outer[OF ij(1) Suc.prems])
    moreover have "2 * int (min i (Suc j)) \<le> 2 * n + 2" by (simp add: n_def min_def)
    ultimately have b: "b \<le> 2 * n + 2" by (rule order_trans)
    have "c \<le> 2 * int (min (Suc i) j)"
      unfolding c_def by (rule Suc.IH[OF ij(2)])
    moreover have "2 * int (min (Suc i) j) \<le> 2 * n + 2" by (simp add: n_def min_def)
    ultimately have c: "c \<le> 2 * n + 2" by (rule order_trans)
    have e: "- 1 \<le> e" "e \<le> 2" by (simp_all add: e_def)
    have w: "int32 (a + e) = a + e" "int32 (b + - 1) = b + - 1" "int32 (c + - 1) = c + - 1"
      using nn a b c e n by (simp_all add: int32_id in_int32_def)
    have "sw_H seq1 seq2 2 (- 1) (- 1) (Suc i) (Suc j) =
        max 0 (max (a + e) (max (b + - 1) (c + - 1)))"
      unfolding sw_H.simps(3) a_def[symmetric] b_def[symmetric] c_def[symmetric]
        e_def[symmetric] w ..
    then show ?case unfolding mn using nn a b c e n by simp
  qed
qed

text \<open>On the diagonal of a self-alignment every step is a match.\<close>

lemma self_H_diag:
  assumes "i \<le> 1000000000"
  shows "sw_H s s 2 (- 1) (- 1) i i = 2 * int i"
  using assms
proof (induction i)
  case 0
  show ?case by simp
next
  case (Suc i)
  define a where "a = sw_H s s 2 (- 1) (- 1) i i"
  define b where "b = sw_H s s 2 (- 1) (- 1) i (Suc i)"
  define c where "c = sw_H s s 2 (- 1) (- 1) (Suc i) i"
  define n where "n = int i"
  have n: "0 \<le> n" "n \<le> 999999999" using Suc.prems by (simp_all add: n_def)
  have a: "a = 2 * n" unfolding a_def n_def using Suc by simp
  have i: "i \<le> 1000000000" using Suc.prems by simp
  have nn: "0 \<le> b" "0 \<le> c" by (simp_all only: b_def c_def sw_H_nonneg)
  have "b \<le> 2 * int (min i (Suc i))"
    unfolding b_def by (rule sw_H_le_twice[OF i Suc.prems])
  then have b: "b \<le> 2 * n" by (simp add: n_def)
  have "c \<le> 2 * int (min (Suc i) i)"
    unfolding c_def by (rule sw_H_le_twice[OF Suc.prems i])
  then have c: "c \<le> 2 * n" by (simp add: n_def)
  have w: "int32 (a + 2) = a + 2" "int32 (b + - 1) = b + - 1" "int32 (c + - 1) = c + - 1"
    using nn a b c n by (simp_all add: int32_id in_int32_def)
  have "sw_H s s 2 (- 1) (- 1) (Suc i) (Suc i) = max 0 (max (a + 2) (max (b + - 1) (c + - 1)))"
    unfolding sw_H.simps(3) a_def[symmetric] b_def[symmetric] c_def[symmetric]
    by (simp only: refl if_True w)
  then show ?case using nn a b c n by (simp add: n_def)
qed

lemma self_D_diag:
  assumes "Suc i \<le> 1000000000"
  shows "sw_D s s 2 (- 1) (- 1) (Suc i) (Suc i) = 1"
proof -
  have i: "i \<le> 1000000000" using assms by simp
  have H: "sw_H s s 2 (- 1) (- 1) (Suc i) (Suc i) = 2 * int i + 2"
    using self_H_diag[OF assms, of s] by simp
  have "in_int32 (2 * int i + 2)" using assms by (simp add: in_int32_def)
  then have d: "int32 (sw_H s s 2 (- 1) (- 1) i i + (if s ! i = s ! i then 2 else - 1)) = 2 * int i + 2"
    by (simp add: self_H_diag[OF i] int32_id)
  show ?thesis
    unfolding sw_D.simps(3) H d direction_spec_chain by simp
qed

lemma self_find_max:
  assumes F: "filled s s 2 (- 1) (- 1) (\<lambda>a b. True) st" and n: "1 \<le> length s"
    and B: "length s \<le> 1000000000"
  shows "find_max (length s) (length s) (fst st) = (2 * int (length s), length s, length s)"
proof -
  define n where "n = length s"
  obtain ms mi mj where fm: "find_max n n (fst st) = (ms, mi, mj)"
    by (cases "find_max n n (fst st)")
  have F': "filled s s 2 (- 1) (- 1) (\<lambda>a b. True) (fst st, snd st)" using F by simp
  have cell: "fst st ! (a * (n + 1) + b) = sw_H s s 2 (- 1) (- 1) a b" if "a \<le> n" "b \<le> n" for a b
    using filled_cell(1)[OF F', of a b] that unfolding n_def by simp
  have "fst st ! (n * (n + 1) + n) \<le> ms"
    by (rule find_max_props(1)[OF fm]) (use n in \<open>simp_all add: n_def\<close>)
  then have big: "2 * int n \<le> ms"
    using cell[of n n] self_H_diag[where i = n and s = s] B by (simp add: n_def)
  then have "0 < ms" using n by (simp add: n_def)
  with find_max_props(2)[OF fm] have *: "mi \<le> n" "mj \<le> n" "fst st ! (mi * (n + 1) + mj) = ms"
    by auto
  have "ms \<le> 2 * int (min mi mj)"
    using sw_H_le_twice[where i = mi and j = mj and ?seq1.0 = s and ?seq2.0 = s]
      cell[OF *(1,2)] *(1,2,3) B by (simp add: n_def)
  with big * have "mi = n" "mj = n" "ms = 2 * int n" by (auto simp: min_def split: if_splits)
  then show ?thesis using fm unfolding n_def by simp
qed

lemma self_tb_loop:
  assumes F: "filled s s 2 (- 1) (- 1) (\<lambda>a b. True) (score, dir)" and k: "k \<le> length s"
    and B: "length s \<le> 1000000000"
  shows "fst (tb_loop s s score dir k k a1 a2 path) = a1 @ rev (take k s) \<and>
         fst (snd (tb_loop s s score dir k k a1 a2 path)) = a2 @ rev (take k s)"
  using k
proof (induction k arbitrary: a1 a2 path)
  case 0
  have "tb_loop s s score dir 0 0 a1 a2 path = (a1, a2, path)"
    by (rule tb_loop_boundary) simp
  then show ?case by simp
next
  case (Suc k)
  have kl: "k < length s" using Suc.prems by simp
  have D: "dir ! (Suc k * (length s + 1) + Suc k) = 1"
    using filled_cell(2)[OF F Suc.prems Suc.prems] self_D_diag[where i = k and s = s]
      Suc.prems B by simp
  have st: "tb_step s s dir (Suc k) (Suc k) a1 a2 = Some (a1 @ [s ! k], a2 @ [s ! k], k, k)"
    unfolding tb_step_def Let_def D by simp
  have S: "score ! (k * (length s + 1) + k) = 2 * int k"
    using filled_cell(1)[OF F, of k k] kl self_H_diag[where i = k and s = s] B by simp
  have tk: "take (Suc k) s = take k s @ [s ! k]"
    using kl by (rule take_Suc_conv_app_nth)
  show ?case
  proof (cases "k = 0")
    case True
    then have "score ! (k * (length s + 1) + k) = 0" using S by simp
    then have "tb_loop s s score dir (Suc k) (Suc k) a1 a2 path =
        (a1 @ [s ! k], a2 @ [s ! k], path @ [(k, k)])"
      by (intro tb_loop_last[OF _ _ st]) simp_all
    then show ?thesis unfolding tk using True by simp
  next
    case False
    then have "score ! (k * (length s + 1) + k) \<noteq> 0" using S by simp
    then have eq: "tb_loop s s score dir (Suc k) (Suc k) a1 a2 path =
        tb_loop s s score dir k k (a1 @ [s ! k]) (a2 @ [s ! k]) (path @ [(k, k)])"
      by (intro tb_loop_move[OF _ _ st]) simp_all
    have "k \<le> length s" using kl by simp
    from Suc.IH[OF this, of "a1 @ [s ! k]" "a2 @ [s ! k]" "path @ [(k, k)]"]
    show ?thesis unfolding eq tk by simp
  qed
qed

lemma self_alignment:
  assumes B: "length s \<le> 1000000000"
  shows "smithWaterman s s 2 (- 1) (- 1) = (gap_to_dot s, gap_to_dot s, 2 * int (length s))"
proof (cases "length s = 0")
  case True
  then have s: "s = []" by simp
  have "\<forall>a b. 1 \<le> a \<and> a \<le> length s \<and> 1 \<le> b \<and> b \<le> length s \<longrightarrow>
      fst (sw_fill s s 2 (- 1) (- 1)) ! (a * (length s + 1) + b) \<le> 0"
    using True by simp
  from sw_walk_all_zero(1)[OF this] show ?thesis
    unfolding smithWaterman_def by (simp add: s gap_to_dot_def)
next
  case False
  then have n: "1 \<le> length s" by (cases s) simp_all
  define st where "st = sw_fill s s 2 (- 1) (- 1)"
  have F: "filled s s 2 (- 1) (- 1) (\<lambda>a b. True) st"
    unfolding st_def by (rule sw_fill_filled)
  then have F': "filled s s 2 (- 1) (- 1) (\<lambda>a b. True) (fst st, snd st)" by simp
  have fm: "find_max (length s) (length s) (fst st) = (2 * int (length s), length s, length s)"
    by (rule self_find_max[OF F n B])
  have tb: "fst (tb_loop s s (fst st) (snd st) (length s) (length s) [] [] [(length s, length s)]) = rev s"
    "fst (snd (tb_loop s s (fst st) (snd st) (length s) (length s) [] [] [(length s, length s)])) = rev s"
    using self_tb_loop[OF F' le_refl B, of "[]" "[]" "[(length s, length s)]"] by simp_all
  show ?thesis
    unfolding smithWaterman_def st_def[symmetric] sw_walk_def Let_def fm
    by (simp add: case_prod_beta tb)
qed

section \<open>Equivalence of the two fills\<close>

text \<open>
  C1. For all sequences and every scoring triple, the sequential row-major fill and the
  anti-diagonal fill produce the same score matrix and the same direction matrix, and
  therefore the same alignment result (aligned strings and best score). The wavefront
  program may run the threads of each launch in any order, as long as it runs them all.
  Both programs add in 32-bit \<^verbatim>\<open>int\<close>; the matrices agree also where a sum wraps around,
  as for match score 2147483647 in the second example below.
\<close>

theorem wavefront_equals_sequential:
  assumes "runs_all_threads order"
  shows "fst (gpu_fill order seq1 seq2 matchScore mismatchScore gapScore) =
           fst (sw_fill seq1 seq2 matchScore mismatchScore gapScore) \<and>
         snd (gpu_fill order seq1 seq2 matchScore mismatchScore gapScore) =
           snd (sw_fill seq1 seq2 matchScore mismatchScore gapScore) \<and>
         gpu_align order seq1 seq2 matchScore mismatchScore gapScore =
           smithWaterman seq1 seq2 matchScore mismatchScore gapScore"
  unfolding gpu_align_def smithWaterman_def by (simp only: gpu_fill_eq[OF assms])

theorem wavefront_equals_sequential_witness:
  "runs_all_threads backwards \<and>
   fst (gpu_fill backwards ''ACACACTA'' ''AGCACACA'' 2 (- 1) (- 1)) =
     fst (sw_fill ''ACACACTA'' ''AGCACACA'' 2 (- 1) (- 1)) \<and>
   snd (gpu_fill backwards ''ACACACTA'' ''AGCACACA'' 2 (- 1) (- 1)) =
     snd (sw_fill ''ACACACTA'' ''AGCACACA'' 2 (- 1) (- 1)) \<and>
   gpu_align backwards ''ACACACTA'' ''AGCACACA'' 2 (- 1) (- 1) =
     (''A.CACACTA'', ''AGCACAC.A'', 12) \<and>
   sw_fill ''AA'' ''AA'' 2147483647 (- 1) (- 1) =
     ([0, 0, 0, 0, 2147483647, 2147483647, 0, 2147483647, 2147483646],
      [0, 0, 0, 0, 1, 1, 0, 1, 2]) \<and>
   fst (gpu_fill backwards ''AA'' ''AA'' 2147483647 (- 1) (- 1)) =
     [0, 0, 0, 0, 2147483647, 2147483647, 0, 2147483647, 2147483646] \<and>
   snd (gpu_fill backwards ''AA'' ''AA'' 2147483647 (- 1) (- 1)) = [0, 0, 0, 0, 1, 1, 0, 1, 2]"
proof -
  have h: "runs_all_threads backwards"
    by (simp add: runs_all_threads_def backwards_def)
  have v: "smithWaterman ''ACACACTA'' ''AGCACACA'' 2 (- 1) (- 1) = (''A.CACACTA'', ''AGCACAC.A'', 12)"
    by code_simp
  have o: "sw_fill ''AA'' ''AA'' 2147483647 (- 1) (- 1) =
     ([0, 0, 0, 0, 2147483647, 2147483647, 0, 2147483647, 2147483646],
      [0, 0, 0, 0, 1, 1, 0, 1, 2])"
    by code_simp
  note t1 = wavefront_equals_sequential[OF h, of "''ACACACTA''" "''AGCACACA''" 2 "- 1" "- 1"]
  note t2 = wavefront_equals_sequential[OF h, of "''AA''" "''AA''" 2147483647 "- 1" "- 1"]
  show ?thesis
    using h t1 t2 by (simp only: v o fst_conv snd_conv simp_thms)
qed

section \<open>The update rule of one cell\<close>

text \<open>
  C2. For a cell \<open>(i, j)\<close> with \<open>1 \<le> i \<le> len1\<close> and \<open>1 \<le> j \<le> len2\<close>, let \<open>diag\<close>,
  \<open>up\<close> and \<open>left\<close> be the scores of the cells \<open>(i-1, j-1)\<close>, \<open>(i-1, j)\<close>, \<open>(i, j-1)\<close>
  plus the match or mismatch score, the gap score and the gap score. When these three
  sums are representable in a 32-bit \<^verbatim>\<open>int\<close>, the update stores \<open>max(0, diag, up, left)\<close> as
  the score and as direction the first of DIAG, UP, LEFT whose candidate equals that
  score, or none when the score is 0. In every case it stores that maximum and that
  direction of the three sums as 32-bit arithmetic leaves them (wrapped around). The
  thread of the kernel that is assigned the cell does the same update.
\<close>

theorem cell_update_rule:
  assumes "1 \<le> i" "i \<le> length seq1" "1 \<le> j" "j \<le> length seq2"
    and "length (fst st) = (length seq1 + 1) * (length seq2 + 1)"
    and "length (snd st) = (length seq1 + 1) * (length seq2 + 1)"
  shows "let w = length seq2 + 1;
             diag = fst st ! ((i - 1) * w + (j - 1)) +
                    (if seq1 ! (i - 1) = seq2 ! (j - 1) then matchScore else mismatchScore);
             up = fst st ! ((i - 1) * w + j) + gapScore;
             left = fst st ! (i * w + (j - 1)) + gapScore;
             st' = fill_cell seq1 seq2 matchScore mismatchScore gapScore i j st
         in (in_int32 diag \<and> in_int32 up \<and> in_int32 left \<longrightarrow>
               fst st' ! (i * w + j) = max 0 (max diag (max up left)) \<and>
               snd st' ! (i * w + j) = direction_spec (max 0 (max diag (max up left))) diag up left \<and>
               snd st' ! (i * w + j) =
                 (if max 0 (max diag (max up left)) = 0 then 0
                  else if diag = max 0 (max diag (max up left)) then 1
                  else if up = max 0 (max diag (max up left)) then 2
                  else 3)) \<and>
            fst st' ! (i * w + j) = max 0 (max (int32 diag) (max (int32 up) (int32 left))) \<and>
            snd st' ! (i * w + j) =
              direction_spec (max 0 (max (int32 diag) (max (int32 up) (int32 left))))
                (int32 diag) (int32 up) (int32 left) \<and>
            (start_i \<le> i \<and> i \<le> end_i \<longrightarrow>
               sw_kernel seq1 seq2 (length seq1) (length seq2) (i + j) start_i end_i
                 matchScore mismatchScore gapScore (i - start_i) st = st')"
proof -
  define w where "w = length seq2 + 1"
  define diag where "diag = fst st ! ((i - 1) * w + (j - 1)) +
                    (if seq1 ! (i - 1) = seq2 ! (j - 1) then matchScore else mismatchScore)"
  define up where "up = fst st ! ((i - 1) * w + j) + gapScore"
  define left where "left = fst st ! (i * w + (j - 1)) + gapScore"
  define st' where "st' = fill_cell seq1 seq2 matchScore mismatchScore gapScore i j st"
  define b where "b = max 0 (max (int32 diag) (max (int32 up) (int32 left)))"
  define c where "c = max 0 (max diag (max up left))"
  have lt: "i * w + j < length (fst st)" "i * w + j < length (snd st)"
    using cell_index_less[OF assms(2,4)] assms(5,6) by (simp_all add: w_def)
  have st': "st' = ((fst st)[i * w + j := b],
      (snd st)[i * w + j := direction_spec b (int32 diag) (int32 up) (int32 left)])"
    unfolding st'_def fill_cell_eq Let_def w_def diag_def up_def left_def b_def ..
  have 1: "fst st' ! (i * w + j) = b" using lt by (simp add: st')
  have 2: "snd st' ! (i * w + j) = direction_spec b (int32 diag) (int32 up) (int32 left)"
    using lt by (simp add: st')
  have 3: "direction_spec c diag up left =
       (if c = 0 then 0 else if diag = c then 1 else if up = c then 2 else 3)"
    unfolding direction_spec_def c_def by (simp add: max_def)
  have 4: "sw_kernel seq1 seq2 (length seq1) (length seq2) (i + j) start_i end_i
                 matchScore mismatchScore gapScore (i - start_i) st = st'"
    if "start_i \<le> i" "i \<le> end_i"
    using that unfolding sw_kernel_eq st'_def by simp
  have 5: "b = c \<and> int32 diag = diag \<and> int32 up = up \<and> int32 left = left"
    if "in_int32 diag" "in_int32 up" "in_int32 left"
    unfolding b_def c_def using that by (simp add: int32_id)
  show ?thesis
    unfolding Let_def w_def[symmetric] diag_def[symmetric] up_def[symmetric] left_def[symmetric]
      st'_def[symmetric] b_def[symmetric] c_def[symmetric]
  proof (intro conjI impI)
    assume r: "in_int32 diag \<and> in_int32 up \<and> in_int32 left"
    then have e: "b = c" "int32 diag = diag" "int32 up = up" "int32 left = left"
      using 5 by blast+
    show "fst st' ! (i * w + j) = c" using 1 e by simp
    show "snd st' ! (i * w + j) = direction_spec c diag up left" using 2 e by simp
    then show "snd st' ! (i * w + j) =
        (if c = 0 then 0 else if diag = c then 1 else if up = c then 2 else 3)"
      by (simp only: 3)
  next
    show "fst st' ! (i * w + j) = b" by (rule 1)
    show "snd st' ! (i * w + j) = direction_spec b (int32 diag) (int32 up) (int32 left)"
      by (rule 2)
  next
    assume "start_i \<le> i \<and> i \<le> end_i"
    then show "sw_kernel seq1 seq2 (length seq1) (length seq2) (i + j) start_i end_i
        matchScore mismatchScore gapScore (i - start_i) st = st'"
      using 4 by blast
  qed
qed

theorem cell_update_rule_witness:
  "fill_cell ''A'' ''C'' 2 (- 1) (- 1) 1 1 ([4, 4, 4, 0], [0, 0, 0, 0]) = ([4, 4, 4, 3], [0, 0, 0, 1]) \<and>
   sw_kernel ''A'' ''C'' 1 1 2 1 1 2 (- 1) (- 1) 0 ([4, 4, 4, 0], [0, 0, 0, 0]) =
     ([4, 4, 4, 3], [0, 0, 0, 1]) \<and>
   direction_spec 3 3 3 3 = 1 \<and>
   fill_cell ''AA'' ''AA'' 2147483647 (- 1) (- 1) 2 2
     ([0, 0, 0, 0, 2147483647, 2147483647, 0, 2147483647, 0], [0, 0, 0, 0, 1, 1, 0, 1, 0]) =
     ([0, 0, 0, 0, 2147483647, 2147483647, 0, 2147483647, 2147483646],
      [0, 0, 0, 0, 1, 1, 0, 1, 2])"
proof -
  have v: "fill_cell ''A'' ''C'' 2 (- 1) (- 1) 1 1 ([4, 4, 4, 0], [0, 0, 0, 0]) = ([4, 4, 4, 3], [0, 0, 0, 1])"
    by code_simp
  have o: "fill_cell ''AA'' ''AA'' 2147483647 (- 1) (- 1) 2 2
     ([0, 0, 0, 0, 2147483647, 2147483647, 0, 2147483647, 0], [0, 0, 0, 0, 1, 1, 0, 1, 0]) =
     ([0, 0, 0, 0, 2147483647, 2147483647, 0, 2147483647, 2147483646],
      [0, 0, 0, 0, 1, 1, 0, 1, 2])"
    by code_simp
  have d: "direction_spec 3 3 3 3 = 1" by (simp add: direction_spec_def)
  have "1 \<le> (1::nat)" "(1::nat) \<le> length ''A''" "(1::nat) \<le> length ''C''"
    "length (fst ([4, 4, 4, 0 :: int], [0, 0, 0, 0 :: nat])) = (length ''A'' + 1) * (length ''C'' + 1)"
    "length (snd ([4, 4, 4, 0 :: int], [0, 0, 0, 0 :: nat])) = (length ''A'' + 1) * (length ''C'' + 1)"
    by simp_all
  note t = cell_update_rule[OF this(1,2,1,3,4,5), where matchScore = 2 and mismatchScore = "- 1"
      and gapScore = "- 1" and start_i = 1 and end_i = 1, unfolded Let_def]
  have K: "sw_kernel ''A'' ''C'' (length ''A'') (length ''C'') (1 + 1) 1 1 2 (- 1) (- 1) (1 - 1)
      ([4, 4, 4, 0], [0, 0, 0, 0]) =
      fill_cell ''A'' ''C'' 2 (- 1) (- 1) 1 1 ([4, 4, 4, 0], [0, 0, 0, 0])"
    using t le_refl[of "1 :: nat"] by blast
  have "sw_kernel ''A'' ''C'' 1 1 2 1 1 2 (- 1) (- 1) 0 ([4, 4, 4, 0], [0, 0, 0, 0]) =
     ([4, 4, 4, 3], [0, 0, 0, 1])"
    using K v by (simp add: numeral_2_eq_2)
  then show ?thesis using v o d by simp
qed

section \<open>Scenario A\<close>

text \<open>
  C4. For \<open>seq1 = ACACACTA\<close>, \<open>seq2 = AGCACACA\<close>, match 2, mismatch -1, gap -1 the
  program returns score 12 and the aligned pair \<open>A-CACACTA\<close> / \<open>AGCACAC-A\<close>, with the
  gaps written as dots.
\<close>

theorem scenario_A:
  "smithWaterman ''ACACACTA'' ''AGCACACA'' 2 (- 1) (- 1) = (''A.CACACTA'', ''AGCACAC.A'', 12)"
  by code_simp

section \<open>The checksum\<close>

text \<open>
  C3. The checksum of a string \<open>s\<close> is the sum over all positions \<open>i\<close> of \<open>s\<close> of
  \<open>((i mod 57) + 1)\<close> times the code of the upper-cased symbol \<open>s[i]\<close>, modulo 10000; it
  lies between 0 and 9999; the header of the report, written out below character by
  character, shows after \<open>Check:\<close> on its \<open>MSF:\<close> line the sum of the two checksums
  modulo 10000, and on each \<open>Name:\<close> line the checksum of that string; and a gap symbol
  is not skipped: appended at position \<open>length s\<close>, the dot adds its own code 46 times the
  multiplier of that position.
\<close>

theorem checksum_formula:
  "gcgChecksum s = checksum_spec s \<and>
   0 \<le> gcgChecksum s \<and> gcgChecksum s \<le> 9999 \<and>
   printMSFAlignment name1 name2 s1 s2 maxScore =
     ''Alignment score: '' @ printf_d maxScore @ ''\<newline>\<newline>'' @
     ''PileUp\<newline>\<newline>'' @
     ''   MSF:   '' @ printf_d (int (length s1)) @
       ''  Type: '' @ [determineSequenceType s1 s2] @
       ''    Check:  '' @ printf_4d ((checksum_spec s1 + checksum_spec s2) mod 10000) @
       ''   ..\<newline>\<newline>'' @
     '' Name: '' @ printf_s name1 @ '' oo  Len:   '' @ printf_d (int (length s1)) @
       ''  Check:  '' @ printf_4d (checksum_spec s1) @ ''  Weight:  10.0\<newline>'' @
     '' Name: '' @ printf_s name2 @ '' oo  Len:   '' @ printf_d (int (length s1)) @
       ''  Check:  '' @ printf_4d (checksum_spec s2) @ ''  Weight:  10.0\<newline>\<newline>'' @
     ''//\<newline>\<newline>'' @
     msf_blocks name1 name2 s1 s2 (length s1) 0 \<and>
   gcgChecksum (s @ ''.'') = (gcgChecksum s + (int (length s mod 57) + 1) * 46) mod 10000"
proof -
  have rng: "0 \<le> gcgChecksum s \<and> gcgChecksum s \<le> 9999"
    unfolding gcgChecksum_def Let_def
    using pos_mod_bound[of 10000 "fold (\<lambda>i check. check + int (i mod 57 + 1) *
        int (c_toupper (of_char (s ! i)))) [0 ..< length s] 0"]
    by simp
  have rep: "printMSFAlignment name1 name2 s1 s2 maxScore =
     ''Alignment score: '' @ printf_d maxScore @ ''\<newline>\<newline>'' @
     ''PileUp\<newline>\<newline>'' @
     ''   MSF:   '' @ printf_d (int (length s1)) @
       ''  Type: '' @ [determineSequenceType s1 s2] @
       ''    Check:  '' @ printf_4d ((checksum_spec s1 + checksum_spec s2) mod 10000) @
       ''   ..\<newline>\<newline>'' @
     '' Name: '' @ printf_s name1 @ '' oo  Len:   '' @ printf_d (int (length s1)) @
       ''  Check:  '' @ printf_4d (checksum_spec s1) @ ''  Weight:  10.0\<newline>'' @
     '' Name: '' @ printf_s name2 @ '' oo  Len:   '' @ printf_d (int (length s1)) @
       ''  Check:  '' @ printf_4d (checksum_spec s2) @ ''  Weight:  10.0\<newline>\<newline>'' @
     ''//\<newline>\<newline>'' @
     msf_blocks name1 name2 s1 s2 (length s1) 0"
    unfolding printMSFAlignment_def Let_def gcgChecksum_eq_spec msf_header_def
    by (simp only: append_assoc)
  have dot: "gcgChecksum (s @ ''.'') = (gcgChecksum s + (int (length s mod 57) + 1) * 46) mod 10000"
    unfolding gcgChecksum_eq_spec checksum_spec_snoc by (simp add: c_toupper_def)
  show ?thesis using gcgChecksum_eq_spec rng rep dot by blast
qed

theorem checksum_formula_witness:
  "gcgChecksum ''A.CACACTA'' = 3069 \<and> checksum_spec ''A.CACACTA'' = 3069 \<and>
   gcgChecksum ''AGCACAC.A'' = 2815 \<and> gcgChecksum ''A.'' = 157 \<and>
   printMSFAlignment ''seq1'' ''seq2'' ''A.CACACTA'' ''AGCACAC.A'' 12 =
     ''Alignment score: 12\<newline>\<newline>'' @
     ''PileUp\<newline>\<newline>'' @
     ''   MSF:   9  Type: N    Check:  5884   ..\<newline>\<newline>'' @
     '' Name: seq1 oo  Len:   9  Check:  3069  Weight:  10.0\<newline>'' @
     '' Name: seq2 oo  Len:   9  Check:  2815  Weight:  10.0\<newline>\<newline>'' @
     ''//\<newline>\<newline>'' @
     ''seq1        A.CACACTA\<newline>seq2        AGCACAC.A\<newline>\<newline>''"
proof -
  have c: "gcgChecksum ''A.CACACTA'' = 3069" "gcgChecksum ''AGCACAC.A'' = 2815"
    "gcgChecksum ''A'' = 65"
    by code_simp+
  have v: "printf_d 12 = ''12''" "printf_d (int (length ''A.CACACTA'')) = ''9''"
    "printf_4d ((3069 + 2815) mod 10000) = ''5884''" "printf_4d 3069 = ''3069''"
    "printf_4d 2815 = ''2815''"
    by (simp_all add: printf_4d_def printf_d_def dec_digits.simps)
  have w: "printf_s ''seq1'' = ''seq1''" "printf_s ''seq2'' = ''seq2''"
    "determineSequenceType ''A.CACACTA'' ''AGCACAC.A'' = CHR ''N''"
    "residues ''A.CACACTA'' 0 9 = ''A.CACACTA''" "residues ''AGCACAC.A'' 0 9 = ''AGCACAC.A''"
    "replicate 8 CHR '' '' = ''        ''"
    by code_simp+
  have len: "length ''A.CACACTA'' = (9 :: nat)" by simp
  have "msf_blocks ''seq1'' ''seq2'' ''A.CACACTA'' ''AGCACAC.A'' 9 (50 * 0) =
       ''seq1        A.CACACTA\<newline>seq2        AGCACAC.A\<newline>\<newline>''"
    unfolding msf_blocks_from by (simp add: w)
  then have blk: "msf_blocks ''seq1'' ''seq2'' ''A.CACACTA'' ''AGCACAC.A'' (length ''A.CACACTA'') 0 =
       ''seq1        A.CACACTA\<newline>seq2        AGCACAC.A\<newline>\<newline>''"
    unfolding len by simp
  note t1 = checksum_formula[of "''A.CACACTA''" "''seq1''" "''seq2''" "''A.CACACTA''"
      "''AGCACAC.A''" 12]
  note t2 = checksum_formula[of "''AGCACAC.A''"]
  note t3 = checksum_formula[of "''A''"]
  have s1: "checksum_spec ''A.CACACTA'' = 3069" using t1 c(1) by simp
  have s2: "checksum_spec ''AGCACAC.A'' = 2815" using t2 c(2) by simp
  have d: "gcgChecksum ''A.'' = 157" using t3 c(3) by simp
  have "printMSFAlignment ''seq1'' ''seq2'' ''A.CACACTA'' ''AGCACAC.A'' 12 =
     ''Alignment score: 12\<newline>\<newline>'' @
     ''PileUp\<newline>\<newline>'' @
     ''   MSF:   9  Type: N    Check:  5884   ..\<newline>\<newline>'' @
     '' Name: seq1 oo  Len:   9  Check:  3069  Weight:  10.0\<newline>'' @
     '' Name: seq2 oo  Len:   9  Check:  2815  Weight:  10.0\<newline>\<newline>'' @
     ''//\<newline>\<newline>'' @
     ''seq1        A.CACACTA\<newline>seq2        AGCACAC.A\<newline>\<newline>''"
    using t1 unfolding s1 s2 v w blk by simp
  then show ?thesis using c s1 d by simp
qed

section \<open>The report of an empty alignment\<close>

text \<open>
  C10. For the empty alignment (both aligned strings empty, score 0) the report is still
  complete: both checksums and the pairwise checksum are 0, the aligned length is 0, the
  type letter is N, and no residue block is printed. The two names stand in the header
  as \<^verbatim>\<open>printf\<close> reads them from \<^verbatim>\<open>c_str()\<close>, up to a first NUL byte.
\<close>

theorem empty_alignment_report:
  "gcgChecksum [] = 0 \<and>
   determineSequenceType [] [] = CHR ''N'' \<and>
   msf_blocks name1 name2 [] [] 0 0 = [] \<and>
   printMSFAlignment name1 name2 [] [] 0 =
     ''Alignment score: 0\<newline>\<newline>'' @
     ''PileUp\<newline>\<newline>'' @
     ''   MSF:   0  Type: N    Check:     0   ..\<newline>\<newline>'' @
     '' Name: '' @ printf_s name1 @ '' oo  Len:   0  Check:     0  Weight:  10.0\<newline>'' @
     '' Name: '' @ printf_s name2 @ '' oo  Len:   0  Check:     0  Weight:  10.0\<newline>\<newline>'' @
     ''//\<newline>\<newline>''"
proof -
  have c: "gcgChecksum [] = 0" by (simp add: gcgChecksum_def)
  have t: "determineSequenceType [] [] = CHR ''N''" by (simp add: determineSequenceType_def)
  have b: "msf_blocks name1 name2 [] [] 0 0 = []" by (subst msf_blocks.simps) simp
  have d: "printf_d 0 = ''0''" "printf_4d 0 = ''   0''"
    by code_simp+
  show ?thesis
    unfolding printMSFAlignment_def Let_def msf_header_def
    by (simp add: c t b d)
qed

section \<open>The name column of the residue lines\<close>

text \<open>
  C9, as the program has it. Every residue line starts with the sequence name as
  \<^verbatim>\<open>printf\<close> reads it (up to its first NUL byte, if it has one), followed by blanks up
  to column 12 (none when that name has 12 characters or more), and then the residues
  of the block: the name is left-justified, the padding follows it. So the name field
  is \<open>max 12 (length (printf_s name))\<close> characters wide.
\<close>

theorem residue_lines_left_justified:
  "msf_blocks name1 name2 align1 align2 alignLen 0 =
     concat (map (\<lambda>b. printf_s name1 @ replicate (12 - length (printf_s name1)) CHR '' '' @
                       residues align1 (50 * b) (min (50 * b + 50) alignLen) @ ''\<newline>'' @
                       printf_s name2 @ replicate (12 - length (printf_s name2)) CHR '' '' @
                       residues align2 (50 * b) (min (50 * b + 50) alignLen) @ ''\<newline>\<newline>'')
                 [0 ..< (alignLen + 49) div 50]) \<and>
   length (printf_minus12s name1) = max 12 (length (printf_s name1)) \<and>
   printMSFAlignment name1 name2 align1 align2 maxScore =
     msf_header name1 name2 (length align1) (determineSequenceType align1 align2)
       ((gcgChecksum align1 + gcgChecksum align2) mod 10000)
       (gcgChecksum align1) (gcgChecksum align2) maxScore @
     msf_blocks name1 name2 align1 align2 (length align1) 0"
proof -
  have "msf_blocks name1 name2 align1 align2 alignLen (50 * 0) =
     concat (map (\<lambda>b. printf_s name1 @ replicate (12 - length (printf_s name1)) CHR '' '' @
                       residues align1 (50 * b) (min (50 * b + 50) alignLen) @ ''\<newline>'' @
                       printf_s name2 @ replicate (12 - length (printf_s name2)) CHR '' '' @
                       residues align2 (50 * b) (min (50 * b + 50) alignLen) @ ''\<newline>\<newline>'')
                 [0 ..< (alignLen + 49) div 50])"
    by (rule msf_blocks_from)
  moreover have "length (printf_minus12s name1) = max 12 (length (printf_s name1))"
    by (simp add: printf_minus12s_def)
  moreover have "printMSFAlignment name1 name2 align1 align2 maxScore =
     msf_header name1 name2 (length align1) (determineSequenceType align1 align2)
       ((gcgChecksum align1 + gcgChecksum align2) mod 10000)
       (gcgChecksum align1) (gcgChecksum align2) maxScore @
     msf_blocks name1 name2 align1 align2 (length align1) 0"
    by (simp add: printMSFAlignment_def Let_def)
  ultimately show ?thesis by simp
qed

theorem residue_lines_left_justified_witness:
  "msf_blocks [CHR ''a'', CHR 0x00, CHR ''b''] ''a_longer_name_2'' ''AC'' ''AG'' 2 0 =
     ''a           AC\<newline>a_longer_name_2AG\<newline>\<newline>''"
proof -
  have r: "residues ''AC'' 0 2 = ''AC''" "residues ''AG'' 0 2 = ''AG''"
    by code_simp+
  have p: "replicate 11 CHR '' '' = ''           ''" by code_simp
  have n: "printf_s [CHR ''a'', CHR 0x00, CHR ''b''] = ''a''"
    "printf_s ''a_longer_name_2'' = ''a_longer_name_2''"
    by code_simp+
  show ?thesis
    using residue_lines_left_justified[of "[CHR ''a'', CHR 0x00, CHR ''b'']"
        "''a_longer_name_2''" "''AC''" "''AG''" 2]
    by (simp add: r p n)
qed

text \<open>
  C9 as stated fails: for the name \<open>s1\<close> the first twelve characters of the residue line
  are the name followed by ten blanks, not ten blanks followed by the name.
\<close>

theorem name_not_left_padded:
  "take 12 (msf_blocks ''s1'' ''s2'' ''AC'' ''AG'' 2 0) = ''s1          '' \<and>
   take 12 (msf_blocks ''s1'' ''s2'' ''AC'' ''AG'' 2 0) \<noteq> replicate 10 CHR '' '' @ ''s1''"
proof -
  have r: "residues ''AC'' 0 2 = ''AC''" "residues ''AG'' 0 2 = ''AG''"
    by code_simp+
  have p: "replicate 10 CHR '' '' = ''          ''" by code_simp
  have n: "printf_s ''s1'' = ''s1''" "printf_s ''s2'' = ''s2''" by code_simp+
  have "msf_blocks ''s1'' ''s2'' ''AC'' ''AG'' 2 (50 * 0) = ''s1          AC\<newline>s2          AG\<newline>\<newline>''"
    unfolding msf_blocks_from by (simp add: r p n)
  then show ?thesis by (simp add: p)
qed

section \<open>The best-cell locator\<close>

text \<open>
  C6. The locator returns the maximum score over the cells \<open>(i, j)\<close> with
  \<open>1 \<le> i \<le> len1\<close>, \<open>1 \<le> j \<le> len2\<close> and the first cell, in row-major order, that holds
  it: every cell before it (in a lower row, or in the same row and a lower column) holds
  a strictly smaller score. That is so whenever some cell is positive. When no cell is
  positive the locator stays at its initial \<open>(0, 0, 0)\<close>, nothing is traced back, and the
  alignment result has empty aligned strings and score 0.
\<close>

theorem best_cell_locator:
  assumes "find_max len1 len2 score = (maxScore, max_i, max_j)"
  shows "(\<forall>i j. 1 \<le> i \<and> i \<le> len1 \<and> 1 \<le> j \<and> j \<le> len2 \<longrightarrow>
            score ! (i * (len2 + 1) + j) \<le> maxScore) \<and>
         ((\<exists>i j. 1 \<le> i \<and> i \<le> len1 \<and> 1 \<le> j \<and> j \<le> len2 \<and> 0 < score ! (i * (len2 + 1) + j)) \<longrightarrow>
            1 \<le> max_i \<and> max_i \<le> len1 \<and> 1 \<le> max_j \<and> max_j \<le> len2 \<and>
            score ! (max_i * (len2 + 1) + max_j) = maxScore \<and>
            (\<forall>i j. 1 \<le> i \<and> 1 \<le> j \<and> j \<le> len2 \<and> (i < max_i \<or> (i = max_i \<and> j < max_j)) \<longrightarrow>
               score ! (i * (len2 + 1) + j) < maxScore)) \<and>
         ((\<forall>i j. 1 \<le> i \<and> i \<le> len1 \<and> 1 \<le> j \<and> j \<le> len2 \<longrightarrow> score ! (i * (len2 + 1) + j) \<le> 0) \<longrightarrow>
            maxScore = 0 \<and> max_i = 0 \<and> max_j = 0) \<and>
         ((\<forall>i j. 1 \<le> i \<and> i \<le> length seq1 \<and> 1 \<le> j \<and> j \<le> length seq2 \<longrightarrow>
              fst st ! (i * (length seq2 + 1) + j) = 0) \<longrightarrow>
            fst (sw_walk seq1 seq2 st) = ([], [], 0)) \<and>
         ((\<forall>i j. 1 \<le> i \<and> i \<le> length seq1 \<and> 1 \<le> j \<and> j \<le> length seq2 \<longrightarrow>
              fst (sw_fill seq1 seq2 m mm g) ! (i * (length seq2 + 1) + j) = 0) \<longrightarrow>
            smithWaterman seq1 seq2 m mm g = ([], [], 0))"
proof (intro conjI impI)
  note props = find_max_props[OF assms]
  show "\<forall>i j. 1 \<le> i \<and> i \<le> len1 \<and> 1 \<le> j \<and> j \<le> len2 \<longrightarrow>
            score ! (i * (len2 + 1) + j) \<le> maxScore"
    using props(1) by blast
  {
    assume "\<exists>i j. 1 \<le> i \<and> i \<le> len1 \<and> 1 \<le> j \<and> j \<le> len2 \<and> 0 < score ! (i * (len2 + 1) + j)"
    then obtain i j where ij: "1 \<le> i" "i \<le> len1" "1 \<le> j" "j \<le> len2"
      "0 < score ! (i * (len2 + 1) + j)" by blast
    from props(1)[OF ij(1-4)] ij(5) have "0 < maxScore" by simp
    with props(2) have *: "1 \<le> max_i \<and> max_i \<le> len1 \<and> 1 \<le> max_j \<and> max_j \<le> len2 \<and>
          score ! (max_i * (len2 + 1) + max_j) = maxScore \<and>
          (\<forall>a b. 1 \<le> a \<and> 1 \<le> b \<and> b \<le> len2 \<and> (a < max_i \<or> (a = max_i \<and> b < max_j)) \<longrightarrow>
             score ! (a * (len2 + 1) + b) < maxScore)" by simp
    from * show "1 \<le> max_i" "max_i \<le> len1" "1 \<le> max_j" "max_j \<le> len2"
      "score ! (max_i * (len2 + 1) + max_j) = maxScore"
      "\<forall>i j. 1 \<le> i \<and> 1 \<le> j \<and> j \<le> len2 \<and> (i < max_i \<or> (i = max_i \<and> j < max_j)) \<longrightarrow>
               score ! (i * (len2 + 1) + j) < maxScore"
      by blast+
  }
  {
    assume z: "\<forall>i j. 1 \<le> i \<and> i \<le> len1 \<and> 1 \<le> j \<and> j \<le> len2 \<longrightarrow> score ! (i * (len2 + 1) + j) \<le> 0"
    from props(2) z have "maxScore = 0 \<and> max_i = 0 \<and> max_j = 0" by (metis not_less)
    then show "maxScore = 0" "max_i = 0" "max_j = 0" by simp_all
  }
  {
    assume "\<forall>i j. 1 \<le> i \<and> i \<le> length seq1 \<and> 1 \<le> j \<and> j \<le> length seq2 \<longrightarrow>
              fst st ! (i * (length seq2 + 1) + j) = 0"
    then have "\<forall>a b. 1 \<le> a \<and> a \<le> length seq1 \<and> 1 \<le> b \<and> b \<le> length seq2 \<longrightarrow>
             fst st ! (a * (length seq2 + 1) + b) \<le> 0" by simp
    then show "fst (sw_walk seq1 seq2 st) = ([], [], 0)" by (rule sw_walk_all_zero(1))
  }
  {
    assume "\<forall>i j. 1 \<le> i \<and> i \<le> length seq1 \<and> 1 \<le> j \<and> j \<le> length seq2 \<longrightarrow>
              fst (sw_fill seq1 seq2 m mm g) ! (i * (length seq2 + 1) + j) = 0"
    then have "\<forall>a b. 1 \<le> a \<and> a \<le> length seq1 \<and> 1 \<le> b \<and> b \<le> length seq2 \<longrightarrow>
             fst (sw_fill seq1 seq2 m mm g) ! (a * (length seq2 + 1) + b) \<le> 0" by simp
    then show "smithWaterman seq1 seq2 m mm g = ([], [], 0)"
      unfolding smithWaterman_def by (rule sw_walk_all_zero(1))
  }
qed

theorem best_cell_locator_witness:
  "find_max 2 2 [0, 0, 0, 0, 1, 3, 0, 3, 2] = (3, 1, 2) \<and>
   [0, 0, 0, 0, 1, 3, 0, 3, 2] ! (1 * (2 + 1) + 1) < (3 :: int) \<and>
   sw_fill ''A'' ''C'' 2 (- 1) (- 1) = ([0, 0, 0, 0], [0, 0, 0, 0]) \<and>
   smithWaterman ''A'' ''C'' 2 (- 1) (- 1) = ([], [], 0)"
proof -
  have fm: "find_max 2 2 [0, 0, 0, 0, 1, 3, 0, 3, 2] = (3, 1, 2)" by code_simp
  have fill: "sw_fill ''A'' ''C'' 2 (- 1) (- 1) = ([0, 0, 0, 0], [0, 0, 0, 0])" by code_simp
  have pos: "\<exists>i j. 1 \<le> i \<and> i \<le> 2 \<and> 1 \<le> j \<and> j \<le> 2 \<and>
      0 < [0, 0, 0, 0, 1, 3, 0, 3, 2 :: int] ! (i * (2 + 1) + j)"
    by (intro exI[of _ 1]) simp
  have zero: "\<forall>i j. 1 \<le> i \<and> i \<le> length ''A'' \<and> 1 \<le> j \<and> j \<le> length ''C'' \<longrightarrow>
      fst (sw_fill ''A'' ''C'' 2 (- 1) (- 1)) ! (i * (length ''C'' + 1) + j) = 0"
    unfolding fill by (auto simp: le_Suc_eq)
  note t = best_cell_locator[OF fm, where ?seq1.0 = "''A''" and ?seq2.0 = "''C''"
      and m = 2 and mm = "- 1" and g = "- 1"]
  from t pos have "[0, 0, 0, 0, 1, 3, 0, 3, 2] ! (1 * (2 + 1) + 1) < (3 :: int)" by simp
  moreover from t zero have "smithWaterman ''A'' ''C'' 2 (- 1) (- 1) = ([], [], 0)" by blast
  ultimately show ?thesis using fm fill by simp
qed

section \<open>Non-negative scores and the walk\<close>

text \<open>
  C7. After the fill every score of the matrix, boundary row and column included, is at
  least 0; and the traceback walk, from the best cell to the cell at which it stops, is
  at a cell of score 0 only at its last cell: every cell before the last has a non-zero
  score, and the last cell has score 0.
\<close>

theorem scores_nonnegative_walk_positive:
  "(\<forall>x \<in> set (fst (sw_fill seq1 seq2 m mm g)). 0 \<le> x) \<and>
   snd (sw_walk seq1 seq2 (sw_fill seq1 seq2 m mm g)) \<noteq> [] \<and>
   (\<forall>c \<in> set (butlast (snd (sw_walk seq1 seq2 (sw_fill seq1 seq2 m mm g)))).
      fst (sw_fill seq1 seq2 m mm g) ! (fst c * (length seq2 + 1) + snd c) \<noteq> 0) \<and>
   fst (sw_fill seq1 seq2 m mm g) !
     (fst (last (snd (sw_walk seq1 seq2 (sw_fill seq1 seq2 m mm g)))) * (length seq2 + 1) +
      snd (last (snd (sw_walk seq1 seq2 (sw_fill seq1 seq2 m mm g))))) = 0"
  using filled_nonneg[OF sw_fill_filled] sw_walk_path[OF sw_fill_filled] by blast

theorem scores_nonnegative_walk_positive_witness:
  "snd (sw_walk ''ACACACTA'' ''AGCACACA'' (sw_fill ''ACACACTA'' ''AGCACACA'' 2 (- 1) (- 1))) =
     [(8, 8), (7, 7), (6, 7), (5, 6), (4, 5), (3, 4), (2, 3), (1, 2), (1, 1), (0, 0)] \<and>
   fst (sw_fill ''ACACACTA'' ''AGCACACA'' 2 (- 1) (- 1)) ! (1 * (length ''AGCACACA'' + 1) + 1) \<noteq> 0 \<and>
   fst (sw_fill ''ACACACTA'' ''AGCACACA'' 2 (- 1) (- 1)) ! (0 * (length ''AGCACACA'' + 1) + 0) = 0"
proof -
  have p: "snd (sw_walk ''ACACACTA'' ''AGCACACA'' (sw_fill ''ACACACTA'' ''AGCACACA'' 2 (- 1) (- 1))) =
     [(8, 8), (7, 7), (6, 7), (5, 6), (4, 5), (3, 4), (2, 3), (1, 2), (1, 1), (0, 0)]"
    by code_simp
  note t = scores_nonnegative_walk_positive[of "''ACACACTA''" "''AGCACACA''" 2 "- 1" "- 1", unfolded p]
  from t have "\<forall>c \<in> set [(8, 8), (7, 7), (6, 7), (5, 6), (4, 5), (3, 4), (2, 3), (1, 2), (1 :: nat, 1 :: nat)].
      fst (sw_fill ''ACACACTA'' ''AGCACACA'' 2 (- 1) (- 1)) ! (fst c * (length ''AGCACACA'' + 1) + snd c) \<noteq> 0"
    by simp
  then have 1: "fst (sw_fill ''ACACACTA'' ''AGCACACA'' 2 (- 1) (- 1)) ! (1 * (length ''AGCACACA'' + 1) + 1) \<noteq> 0"
    by simp
  from t have 2: "fst (sw_fill ''ACACACTA'' ''AGCACACA'' 2 (- 1) (- 1)) ! (0 * (length ''AGCACACA'' + 1) + 0) = 0"
    by simp
  show ?thesis using p 1 2 by blast
qed

section \<open>Shape of the aligned strings\<close>

text \<open>
  C8. The two aligned strings of an alignment result have the same length, whatever the
  matrices the traceback walks on; this covers the sequential and the wavefront program.
  And when the sequences are made of residues, so that neither contains the gap symbols
  \<open>-\<close> and \<open>.\<close>, no index holds a gap in both aligned strings.
\<close>

theorem aligned_strings_shape:
  "(let (align1, align2, maxScore) = fst (sw_walk seq1 seq2 st)
    in length align1 = length align2 \<and>
       (CHR ''-'' \<notin> set seq1 \<union> set seq2 \<and> CHR ''.'' \<notin> set seq1 \<union> set seq2 \<longrightarrow>
          (\<forall>k < length align1. \<not> (align1 ! k = CHR ''.'' \<and> align2 ! k = CHR ''.'')))) \<and>
   (let (align1, align2, maxScore) = smithWaterman seq1 seq2 m mm g
    in length align1 = length align2 \<and>
       (CHR ''-'' \<notin> set seq1 \<union> set seq2 \<and> CHR ''.'' \<notin> set seq1 \<union> set seq2 \<longrightarrow>
          (\<forall>k < length align1. \<not> (align1 ! k = CHR ''.'' \<and> align2 ! k = CHR ''.'')))) \<and>
   (let (align1, align2, maxScore) = gpu_align order seq1 seq2 m mm g
    in length align1 = length align2 \<and>
       (CHR ''-'' \<notin> set seq1 \<union> set seq2 \<and> CHR ''.'' \<notin> set seq1 \<union> set seq2 \<longrightarrow>
          (\<forall>k < length align1. \<not> (align1 ! k = CHR ''.'' \<and> align2 ! k = CHR ''.''))))"
  unfolding smithWaterman_def gpu_align_def Let_def case_prod_beta
  using sw_walk_shape[of seq1 seq2 st]
    sw_walk_shape[of seq1 seq2 "sw_fill seq1 seq2 m mm g"]
    sw_walk_shape[of seq1 seq2 "gpu_fill order seq1 seq2 m mm g"]
  by blast

theorem aligned_strings_shape_witness:
  "smithWaterman ''ACACACTA'' ''AGCACACA'' 2 (- 1) (- 1) = (''A.CACACTA'', ''AGCACAC.A'', 12) \<and>
   length ''A.CACACTA'' = length ''AGCACAC.A'' \<and>
   \<not> (''A.CACACTA'' ! 1 = CHR ''.'' \<and> ''AGCACAC.A'' ! 1 = CHR ''.'')"
proof -
  have v: "smithWaterman ''ACACACTA'' ''AGCACACA'' 2 (- 1) (- 1) = (''A.CACACTA'', ''AGCACAC.A'', 12)"
    by code_simp
  have no: "CHR ''-'' \<notin> set ''ACACACTA'' \<union> set ''AGCACACA'' \<and> CHR ''.'' \<notin> set ''ACACACTA'' \<union> set ''AGCACACA''"
    by simp
  from aligned_strings_shape[of "''ACACACTA''" "''AGCACACA''" _ 2 "- 1" "- 1", unfolded v] no
  have "length ''A.CACACTA'' = length ''AGCACAC.A'' \<and>
       (\<forall>k < length ''A.CACACTA''. \<not> (''A.CACACTA'' ! k = CHR ''.'' \<and> ''AGCACAC.A'' ! k = CHR ''.''))"
    by (simp del: length_Cons nth_Cons_numeral) 
  then show ?thesis using v by simp
qed

section \<open>Scenario B\<close>

text \<open>
  C5. Aligning a sequence \<open>s\<close> of length 20 with itself under match 2, mismatch -1, gap -1
  gives best score 40 and two equal aligned strings of length 20, hence equal checksums.
  The traceback runs down the diagonal, so no gap is inserted: when \<open>s\<close> is made of
  residues (it contains neither \<open>-\<close> nor \<open>.\<close>) both aligned strings are \<open>s\<close> itself and
  contain no gap symbol.
\<close>

theorem scenario_B:
  assumes "length s = 20"
  shows "let (align1, align2, maxScore) = smithWaterman s s 2 (- 1) (- 1)
         in maxScore = 40 \<and> align1 = align2 \<and> length align1 = 20 \<and>
            gcgChecksum align1 = gcgChecksum align2 \<and>
            (CHR ''-'' \<notin> set s \<longrightarrow> align1 = s \<and> align2 = s) \<and>
            (CHR ''-'' \<notin> set s \<and> CHR ''.'' \<notin> set s \<longrightarrow>
               CHR ''.'' \<notin> set align1 \<and> CHR ''.'' \<notin> set align2 \<and>
               CHR ''-'' \<notin> set align1 \<and> CHR ''-'' \<notin> set align2)"
proof -
  have same: "gap_to_dot s = s" if "CHR ''-'' \<notin> set s"
    using that unfolding gap_to_dot_def by (induction s) auto
  have "length s \<le> 1000000000" using assms by simp
  note sa = self_alignment[OF this]
  show ?thesis
    unfolding sa Let_def case_prod_beta fst_conv snd_conv
    using assms same by (auto simp: gap_to_dot_def)
qed

theorem scenario_B_witness:
  "smithWaterman ''ACGTTGCAACGTTGCAACGT'' ''ACGTTGCAACGTTGCAACGT'' 2 (- 1) (- 1) =
     (''ACGTTGCAACGTTGCAACGT'', ''ACGTTGCAACGTTGCAACGT'', 40)"
proof -
  have l: "length ''ACGTTGCAACGTTGCAACGT'' = 20" by simp
  have n: "CHR ''-'' \<notin> set ''ACGTTGCAACGTTGCAACGT''" by simp
  from scenario_B[OF l] n show ?thesis
    unfolding Let_def case_prod_beta by (simp only: prod_eq_iff fst_conv snd_conv simp_thms)
qed

end
